theory Spec2Isabelle
  imports Main "HOL-Library.Word" "HOL-Library.Multiset"
begin

section \<open>The execution priority queue of appbase\<close>

text \<open>
  A shallow embedding of \<^verbatim>\<open>include/appbase/execution_priority_queue.hpp\<close>.

  \<^item> \<^verbatim>\<open>int\<close> priorities are only stored and compared, never computed with, so they are
    \<open>int\<close>.
  \<^item> \<^verbatim>\<open>size_t\<close> is a machine word \<open>'w word\<close>; the width \<open>'w\<close> is left open (64 on the
    usual targets). Subtraction wraps and \<open><\<close> is the unsigned comparison.
  \<^item> A callable is a value of an uninterpreted type \<open>'f\<close>. What the execution of a
    handler does is given by a table \<open>body\<close> from handlers to statement lists (see
    below).
  \<^item> The mutex only serialises the critical sections; the embedding is sequential.
\<close>

subsection \<open>Named priorities\<close>

definition priority_high :: int where
  "priority_high = 100"

definition priority_medium :: int where
  "priority_medium = 50"

definition priority_low :: int where
  "priority_low = 10"

subsection \<open>Queued handlers and their order\<close>

text \<open>
  \<^verbatim>\<open>queued_handler<Function>\<close> with its base class: the fields \<^verbatim>\<open>priority_\<close>,
  \<^verbatim>\<open>order_\<close> and \<^verbatim>\<open>function_\<close>. The constructor keeps the source's name. A name
  cannot end in an underscore here, and the queue and the executor have fields of
  the same names, so every field is named after its class: \<open>handler_order\<close> is
  \<^verbatim>\<open>queued_handler_base::order_\<close>, \<open>queue_order\<close> is
  \<^verbatim>\<open>execution_priority_queue::order_\<close>, and so on; \<open>priority\<close> is the accessor
  \<^verbatim>\<open>priority()\<close>.
\<close>

datatype ('s, 'f) queued_handler =
  queued_handler (priority: int) (handler_order: 's) (handler_function: 'f)

text \<open>The type \<open>'s\<close> of \<^verbatim>\<open>order_\<close> is \<^verbatim>\<open>size_t\<close>: always a word \<open>'w word\<close> below.\<close>

type_synonym ('w, 'f) handler = "('w word, 'f) queued_handler"

text \<open>
  \<^verbatim>\<open>operator<\<close> on handlers compares \<^verbatim>\<open>std::tie(priority_, order_)\<close>, that is
  lexicographically; \<^verbatim>\<open>ptr_less\<close> dereferences two pointers and applies it.
\<close>

definition handler_less :: "('w::len, 'f) handler \<Rightarrow> ('w, 'f) handler \<Rightarrow> bool" where
  "handler_less a b \<longleftrightarrow>
     priority a < priority b \<or>
     (\<not> priority b < priority a \<and> handler_order a < handler_order b)"

definition ptr_less :: "('w::len, 'f) handler \<Rightarrow> ('w, 'f) handler \<Rightarrow> bool" where
  "ptr_less a b = handler_less a b"

subsection \<open>The standard priority queue\<close>

text \<open>
  \<^verbatim>\<open>std::priority_queue<..., std::deque<...>, ptr_less>\<close> belongs to the C++ standard
  library. It is modelled by its contract on the list of the elements it holds:
  \<^verbatim>\<open>push\<close> adds an element, \<^verbatim>\<open>top\<close> is an element that no other element exceeds
  under the comparator, \<^verbatim>\<open>pop\<close> removes that element. Among several greatest
  elements the library may return any; the model returns the one pushed first. Where
  the pending handlers carry distinct sequence values there is one greatest element
  and nothing to choose.
\<close>

definition pq_empty :: "'a list \<Rightarrow> bool" where
  "pq_empty hs \<longleftrightarrow> hs = []"

definition pq_push :: "'a \<Rightarrow> 'a list \<Rightarrow> 'a list" where
  "pq_push h hs = hs @ [h]"

fun top_from :: "('w::len, 'f) handler \<Rightarrow> ('w, 'f) handler list
    \<Rightarrow> ('w, 'f) handler" where
  "top_from m [] = m"
| "top_from m (x # xs) = top_from (if ptr_less m x then x else m) xs"

fun pq_top :: "('w::len, 'f) handler list \<Rightarrow> ('w, 'f) handler option" where
  "pq_top [] = None"
| "pq_top (x # xs) = Some (top_from x xs)"

definition pq_pop :: "('w::len, 'f) handler list \<Rightarrow> ('w, 'f) handler list" where
  "pq_pop hs = (case pq_top hs of None \<Rightarrow> hs | Some h \<Rightarrow> remove1 h hs)"

subsection \<open>The queue\<close>

record ('s, 'f) execution_priority_queue =
  queue_handlers :: "('s, 'f) queued_handler list"
  queue_order :: 's

type_synonym ('w, 'f) queue = "('w word, 'f) execution_priority_queue"

text \<open>A newly constructed queue: no handlers, \<^verbatim>\<open>order_\<close> is the greatest \<^verbatim>\<open>size_t\<close>.\<close>

definition new_queue :: "('w::len, 'f) queue" where
  "new_queue = \<lparr>queue_handlers = [], queue_order = - 1\<rparr>"

text \<open>\<^verbatim>\<open>add\<close>: the counter is decremented first, the new handler carries the new value.\<close>

definition add :: "int \<Rightarrow> 'f \<Rightarrow> ('w::len, 'f) queue
    \<Rightarrow> ('w, 'f) queue" where
  "add p f q =
     (let order' = queue_order q - 1;
          handler = queued_handler p order' f
      in q\<lparr>queue_handlers := pq_push handler (queue_handlers q), queue_order := order'\<rparr>)"

text \<open>\<^verbatim>\<open>get_top_handler\<close>: the top handler, popped, or nothing on an empty queue.\<close>

definition get_top_handler :: "('w::len, 'f) queue
    \<Rightarrow> ('w, 'f) handler option \<times> ('w, 'f) queue" where
  "get_top_handler q =
     (if pq_empty (queue_handlers q) then (None, q)
      else (pq_top (queue_handlers q), q\<lparr>queue_handlers := pq_pop (queue_handlers q)\<rparr>))"

subsection \<open>Callables\<close>

text \<open>
  The callables handed to the queue are not part of the header. A call of one can
  use the queue through its public members only, so the execution of a handler is
  modelled by the calls it makes, in order: \<^verbatim>\<open>add\<close> (directly or through an
  executor), a nested \<^verbatim>\<open>execute_highest\<close> or \<^verbatim>\<open>execute_all\<close>, and leaving by an
  exception. The table \<open>body\<close> gives each handler the statements of its execution; it
  is a parameter of everything that executes, and the theorems hold for every table.
  A callable that catches the exception of a nested call is not modelled.
\<close>

datatype 'f stmt = Call_add int 'f | Call_execute_highest | Call_execute_all | Throw

datatype exn = Callback_exception

text \<open>
  What an execution did is recorded beside the queue: which handlers were added
  and which were executed, in order. The record is not state of the program.
\<close>

datatype ('s, 'f) event = Enqueued "('s, 'f) queued_handler" | Executed "('s, 'f) queued_handler"

text \<open>
  An execution returns normally with a value (\<open>Inr\<close>) or leaves by an exception
  (\<open>Inl\<close>); in both cases the events and the queue it leaves behind are kept. A callable
  can add itself again, so \<^verbatim>\<open>execute_all\<close> need not return: every execution
  takes fuel, and \<open>None\<close> is the execution that is still running when the fuel is used
  up.
\<close>

type_synonym ('a, 'w, 'f) outcome =
  "((exn + 'a) \<times> ('w word, 'f) event list \<times> ('w, 'f) queue) option"

subsection \<open>Executing\<close>

text \<open>
  \<open>run\<close> performs the statements of a callable. \<open>execute\<close> is
  \<^verbatim>\<open>queued_handler::execute\<close>. \<open>execute_highest\<close> and \<open>execute_all\<close> are the two
  public members; an exception of the callable passes through both (neither has a
  handler for it).
\<close>

function run :: "(('w::len, 'f) handler \<Rightarrow> 'f stmt list) \<Rightarrow> nat \<Rightarrow> 'f stmt list \<Rightarrow> ('w, 'f) queue
    \<Rightarrow> (unit, 'w, 'f) outcome"
  and execute :: "(('w, 'f) handler \<Rightarrow> 'f stmt list) \<Rightarrow> nat \<Rightarrow> ('w, 'f) handler \<Rightarrow> ('w, 'f) queue
    \<Rightarrow> (unit, 'w, 'f) outcome"
  and execute_highest :: "(('w, 'f) handler \<Rightarrow> 'f stmt list) \<Rightarrow> nat \<Rightarrow> ('w, 'f) queue
    \<Rightarrow> (bool, 'w, 'f) outcome"
  and execute_all :: "(('w, 'f) handler \<Rightarrow> 'f stmt list) \<Rightarrow> nat \<Rightarrow> ('w, 'f) queue
    \<Rightarrow> (unit, 'w, 'f) outcome"
where
  "run body n [] q = Some (Inr (), [], q)"
| "run body n (Call_add p f # ss) q =
     (let q1 = add p f q in
      case run body n ss q1 of
        None \<Rightarrow> None
      | Some (r, tr, q2) \<Rightarrow> Some (r, Enqueued (last (queue_handlers q1)) # tr, q2))"
| "run body n (Call_execute_highest # ss) q =
     (case execute_highest body n q of
        None \<Rightarrow> None
      | Some (Inl e, tr, q1) \<Rightarrow> Some (Inl e, tr, q1)
      | Some (Inr b, tr, q1) \<Rightarrow>
          (case run body n ss q1 of
             None \<Rightarrow> None
           | Some (r, tr', q2) \<Rightarrow> Some (r, tr @ tr', q2)))"
| "run body n (Call_execute_all # ss) q =
     (case execute_all body n q of
        None \<Rightarrow> None
      | Some (Inl e, tr, q1) \<Rightarrow> Some (Inl e, tr, q1)
      | Some (Inr u, tr, q1) \<Rightarrow>
          (case run body n ss q1 of
             None \<Rightarrow> None
           | Some (r, tr', q2) \<Rightarrow> Some (r, tr @ tr', q2)))"
| "run body n (Throw # ss) q = Some (Inl Callback_exception, [], q)"
| "execute body n h q =
     (case run body n (body h) q of
        None \<Rightarrow> None
      | Some (r, tr, q1) \<Rightarrow> Some (r, Executed h # tr, q1))"
| "execute_highest body 0 q = None"
| "execute_highest body (Suc n) q =
     (case get_top_handler q of
        (None, q1) \<Rightarrow> Some (Inr (\<not> pq_empty (queue_handlers q1)), [], q1)
      | (Some h, q1) \<Rightarrow>
          (case execute body n h q1 of
             None \<Rightarrow> None
           | Some (Inl e, tr, q2) \<Rightarrow> Some (Inl e, tr, q2)
           | Some (Inr u, tr, q2) \<Rightarrow> Some (Inr (\<not> pq_empty (queue_handlers q2)), tr, q2)))"
| "execute_all body 0 q = None"
| "execute_all body (Suc n) q =
     (case get_top_handler q of
        (None, q1) \<Rightarrow> Some (Inr (), [], q1)
      | (Some h, q1) \<Rightarrow>
          (case execute body n h q1 of
             None \<Rightarrow> None
           | Some (Inl e, tr, q2) \<Rightarrow> Some (Inl e, tr, q2)
           | Some (Inr u, tr, q2) \<Rightarrow>
               (case execute_all body n q2 of
                  None \<Rightarrow> None
                | Some (r, tr', q3) \<Rightarrow> Some (r, tr @ tr', q3))))"
  by pat_completeness auto

termination
  by (relation "inv_image (less_than <*lex*> less_than <*lex*> less_than)
        (\<lambda>x. case x of
           Inl (Inl (body, n, ss, q)) \<Rightarrow> (n, 1::nat, length ss)
         | Inl (Inr (body, n, h, q)) \<Rightarrow> (n, 2, 0)
         | Inr (Inl (body, n, q)) \<Rightarrow> (n, 0, 0)
         | Inr (Inr (body, n, q)) \<Rightarrow> (n, 0, 0))") auto

subsection \<open>Executors\<close>

text \<open>
  An executor holds a reference to its queue and a priority. Its \<^verbatim>\<open>operator==\<close>
  compares the addresses of the queues, so the reference is an address \<open>'a\<close> into a
  store of queue objects. The allocator arguments of the three submission members are
  not used by the source and are left out.
\<close>

record 'a executor =
  executor_context :: 'a
  executor_priority :: int

type_synonym ('a, 'w, 'f) store = "'a \<Rightarrow> ('w, 'f) queue"

definition make_executor :: "'a \<Rightarrow> int \<Rightarrow> 'a executor" where
  "make_executor q p = \<lparr>executor_context = q, executor_priority = p\<rparr>"

definition dispatch :: "'a executor \<Rightarrow> 'f \<Rightarrow> ('a, 'w::len, 'f) store \<Rightarrow> ('a, 'w, 'f) store" where
  "dispatch e f s = s(executor_context e := add (executor_priority e) f (s (executor_context e)))"

definition post :: "'a executor \<Rightarrow> 'f \<Rightarrow> ('a, 'w::len, 'f) store \<Rightarrow> ('a, 'w, 'f) store" where
  "post e f s = s(executor_context e := add (executor_priority e) f (s (executor_context e)))"

definition defer_submit :: "'a executor \<Rightarrow> 'f \<Rightarrow> ('a, 'w::len, 'f) store \<Rightarrow> ('a, 'w, 'f) store" where
  "defer_submit e f s = s(executor_context e := add (executor_priority e) f (s (executor_context e)))"

text \<open>Both bookkeeping members have an empty body.\<close>

definition on_work_started :: "'a executor \<Rightarrow> ('a, 'w::len, 'f) store
    \<Rightarrow> 'a executor \<times> ('a, 'w, 'f) store" where
  "on_work_started e s = (e, s)"

definition on_work_finished :: "'a executor \<Rightarrow> ('a, 'w::len, 'f) store
    \<Rightarrow> 'a executor \<times> ('a, 'w, 'f) store" where
  "on_work_finished e s = (e, s)"

text \<open>\<^verbatim>\<open>operator==\<close> and \<^verbatim>\<open>operator!=\<close>.\<close>

definition executor_eq :: "'a executor \<Rightarrow> 'a executor \<Rightarrow> bool" where
  "executor_eq e other \<longleftrightarrow>
     executor_context e = executor_context other \<and> executor_priority e = executor_priority other"

definition executor_neq :: "'a executor \<Rightarrow> 'a executor \<Rightarrow> bool" where
  "executor_neq e other \<longleftrightarrow> \<not> executor_eq e other"

text \<open>
  \<^verbatim>\<open>wrap\<close> binds a callable to a new executor of this queue; the pair is what
  \<^verbatim>\<open>boost::asio::bind_executor\<close> keeps.
\<close>

definition wrap :: "'a \<Rightarrow> int \<Rightarrow> 'f \<Rightarrow> 'a executor \<times> 'f" where
  "wrap this p func = (make_executor this p, func)"

subsection \<open>Drivers and observations\<close>

text \<open>
  What follows is not code of the header: it is the vocabulary the statements need.
  \<open>enqueue_all\<close> is a caller making a sequence of \<^verbatim>\<open>add\<close> calls; \<open>churn\<close> is a
  caller that adds one handler and pops it, \<open>n\<close> times over; \<open>item_of\<close> forgets the
  sequence value of a handler; \<open>stamped c items\<close> are the handlers that \<open>enqueue_all\<close>
  makes of \<open>items\<close> when the counter is \<open>c\<close>.
\<close>

fun enqueue_all :: "(int \<times> 'f) list \<Rightarrow> ('w::len, 'f) queue \<Rightarrow> ('w, 'f) queue" where
  "enqueue_all [] q = q"
| "enqueue_all ((p, f) # items) q = enqueue_all items (add p f q)"

fun churn :: "nat \<Rightarrow> int \<Rightarrow> 'f \<Rightarrow> ('w::len, 'f) queue \<Rightarrow> ('w, 'f) queue" where
  "churn 0 p f q = q"
| "churn (Suc n) p f q = churn n p f (snd (get_top_handler (add p f q)))"

definition item_of :: "('s, 'f) queued_handler \<Rightarrow> int \<times> 'f" where
  "item_of h = (priority h, handler_function h)"

fun stamped :: "'w::len word \<Rightarrow> (int \<times> 'f) list \<Rightarrow> ('w, 'f) handler list" where
  "stamped c [] = []"
| "stamped c ((p, f) # items) = queued_handler p (c - 1) f # stamped (c - 1) items"

text \<open>The handlers an execution added and the handlers it executed, in order.\<close>

fun enqueued_of :: "('s, 'f) event list \<Rightarrow> ('s, 'f) queued_handler list" where
  "enqueued_of [] = []"
| "enqueued_of (Enqueued h # es) = h # enqueued_of es"
| "enqueued_of (Executed h # es) = enqueued_of es"

fun executed_of :: "('s, 'f) event list \<Rightarrow> ('s, 'f) queued_handler list" where
  "executed_of [] = []"
| "executed_of (Enqueued h # es) = executed_of es"
| "executed_of (Executed h # es) = h # executed_of es"

text \<open>
  \<open>replay\<close> checks a list of events against the queue: an \<open>Enqueued\<close> event must be
  the handler that \<^verbatim>\<open>add\<close> makes, an \<open>Executed\<close> event must be the handler that
  \<^verbatim>\<open>get_top_handler\<close> pops. Every execution below is shown to replay.
\<close>

fun apply_event :: "('w::len word, 'f) event \<Rightarrow> ('w, 'f) queue \<Rightarrow> ('w, 'f) queue option" where
  "apply_event (Enqueued h) q =
     (let q1 = add (priority h) (handler_function h) q
      in if h = last (queue_handlers q1) then Some q1 else None)"
| "apply_event (Executed h) q =
     (case get_top_handler q of
        (None, q1) \<Rightarrow> None
      | (Some h1, q1) \<Rightarrow> if h = h1 then Some q1 else None)"

fun replay :: "('w::len word, 'f) event list \<Rightarrow> ('w, 'f) queue \<Rightarrow> ('w, 'f) queue option" where
  "replay [] q = Some q"
| "replay (e # es) q = (case apply_event e q of None \<Rightarrow> None | Some q1 \<Rightarrow> replay es q1)"

text \<open>
  The invariant of the queue: the pending handlers carry pairwise distinct sequence
  values, none below the counter.
\<close>

definition queue_inv :: "('w::len, 'f) queue \<Rightarrow> bool" where
  "queue_inv q \<longleftrightarrow>
     distinct (map handler_order (queue_handlers q)) \<and>
     (\<forall>h\<in>set (queue_handlers q). queue_order q \<le> handler_order h)"

text \<open>Callables and items of the examples.\<close>

definition inert :: "('s, string) queued_handler \<Rightarrow> string stmt list" where
  "inert h = []"

definition example_body :: "('s, string) queued_handler \<Rightarrow> string stmt list" where
  "example_body h =
     (if handler_function h = ''A'' then [Call_add 100 ''B'']
      else if handler_function h = ''T'' then [Throw]
      else if handler_function h = ''R'' then [Call_execute_highest]
      else [])"

definition ex_items :: "(int \<times> string) list" where
  "ex_items = [(10, ''A''), (100, ''B''), (10, ''C''), (50, ''D'')]"

text \<open>
  The items that the statements of a callable add, in order, and the items added by the
  callables of the handlers that an execution executed.
\<close>

fun adds :: "'f stmt list \<Rightarrow> (int \<times> 'f) list" where
  "adds [] = []"
| "adds (Call_add p f # ss) = (p, f) # adds ss"
| "adds (Call_execute_highest # ss) = adds ss"
| "adds (Call_execute_all # ss) = adds ss"
| "adds (Throw # ss) = adds ss"

definition adds_of :: "(('w::len, 'f) handler \<Rightarrow> 'f stmt list) \<Rightarrow> ('w word, 'f) event list
    \<Rightarrow> (int \<times> 'f) multiset" where
  "adds_of body tr = mset (concat (map (\<lambda>h. adds (body h)) (executed_of tr)))"

text \<open>
  \<^verbatim>\<open>execute_all\<close> returns only if the callables stop adding. A ranking \<open>cost\<close>
  of the callables bounds it: no callable throws, and the cost of a callable exceeds
  the number of the items it adds and their costs together. \<open>weight\<close> is what is
  pending, counted with its costs.
\<close>

definition added :: "('f \<Rightarrow> nat) \<Rightarrow> 'f stmt list \<Rightarrow> nat" where
  "added cost ss = sum_list (map (\<lambda>x. Suc (cost (snd x))) (adds ss))"

definition weight :: "('f \<Rightarrow> nat) \<Rightarrow> ('w::len, 'f) queue \<Rightarrow> nat" where
  "weight cost q = sum_list (map (\<lambda>h. Suc (cost (handler_function h))) (queue_handlers q))"

definition ranked :: "('f \<Rightarrow> nat) \<Rightarrow> (('w::len, 'f) handler \<Rightarrow> 'f stmt list) \<Rightarrow> bool" where
  "ranked cost body \<longleftrightarrow>
     (\<forall>h. Throw \<notin> set (body h) \<and> added cost (body h) \<le> cost (handler_function h))"

text \<open>A table of callables that add: A adds B and C, B adds D; and a ranking of it.\<close>

definition spawn_body :: "('s, string) queued_handler \<Rightarrow> string stmt list" where
  "spawn_body h =
     (if handler_function h = ''A'' then [Call_add 100 ''B'', Call_add 10 ''C'']
      else if handler_function h = ''B'' then [Call_add 50 ''D'']
      else [])"

definition spawn_cost :: "string \<Rightarrow> nat" where
  "spawn_cost f = (if f = ''A'' then 3 else if f = ''B'' then 1 else 0)"

section \<open>The order of handlers and the top of the queue\<close>

lemma handler_less_irrefl: "\<not> handler_less a a"
  by (simp add: handler_less_def)

lemma handler_less_trans: "handler_less a b \<Longrightarrow> handler_less b c \<Longrightarrow> handler_less a c"
  by (auto simp: handler_less_def)

lemma handler_not_less_trans:
  "\<not> handler_less a b \<Longrightarrow> \<not> handler_less b c \<Longrightarrow> \<not> handler_less a c"
  by (auto simp: handler_less_def)

lemma top_from_mem: "top_from m xs \<in> set (m # xs)"
  by (induction xs arbitrary: m) auto

lemma top_from_greatest: "y \<in> set (m # xs) \<Longrightarrow> \<not> handler_less (top_from m xs) y"
proof (induction xs arbitrary: m y)
  case Nil
  then show ?case by (simp add: handler_less_irrefl)
next
  case (Cons x xs)
  let ?m = "if ptr_less m x then x else m"
  have top: "top_from m (x # xs) = top_from ?m xs" by simp
  have m': "\<not> handler_less (top_from ?m xs) ?m" by (rule Cons.IH) simp
  have "\<not> handler_less (top_from ?m xs) m"
    using m' handler_less_trans [of "top_from ?m xs" m x] by (auto simp: ptr_less_def split: if_splits)
  moreover have "\<not> handler_less (top_from ?m xs) x"
    using m' handler_not_less_trans [of "top_from ?m xs" m x] by (auto simp: ptr_less_def split: if_splits)
  moreover have "z \<in> set xs \<Longrightarrow> \<not> handler_less (top_from ?m xs) z" for z
    by (rule Cons.IH) simp
  ultimately show ?case using Cons.prems unfolding top by auto
qed

lemma get_top_handler_empty:
  "queue_handlers q = [] \<Longrightarrow> get_top_handler q = (None, q)"
  by (simp add: get_top_handler_def pq_empty_def)

lemma get_top_handler_None:
  "get_top_handler q = (None, q1) \<Longrightarrow> queue_handlers q = [] \<and> q1 = q"
  by (cases "queue_handlers q") (auto simp: get_top_handler_def pq_empty_def)

lemma get_top_handler_Some:
  assumes "get_top_handler q = (Some h, q1)"
  shows "h \<in> set (queue_handlers q)"
    and "\<And>y. y \<in> set (queue_handlers q) \<Longrightarrow> \<not> handler_less h y"
    and "q1 = q\<lparr>queue_handlers := remove1 h (queue_handlers q)\<rparr>"
proof -
  obtain x xs where xs: "queue_handlers q = x # xs"
    using assms by (cases "queue_handlers q") (auto simp: get_top_handler_def pq_empty_def)
  then have h: "h = top_from x xs" and q1: "q1 = q\<lparr>queue_handlers := pq_pop (x # xs)\<rparr>"
    using assms by (auto simp: get_top_handler_def pq_empty_def)
  show "h \<in> set (queue_handlers q)" using top_from_mem [of x xs] by (simp add: h xs)
  show "\<not> handler_less h y" if "y \<in> set (queue_handlers q)" for y
    using top_from_greatest [of y x xs] that by (simp add: h xs)
  show "q1 = q\<lparr>queue_handlers := remove1 h (queue_handlers q)\<rparr>"
    by (simp add: q1 h xs pq_pop_def)
qed

lemma get_top_handler_nonempty:
  "queue_handlers q \<noteq> [] \<Longrightarrow> \<exists>h. get_top_handler q = (Some h, q\<lparr>queue_handlers := remove1 h (queue_handlers q)\<rparr>)"
  by (cases "queue_handlers q") (auto simp: get_top_handler_def pq_empty_def pq_pop_def)

lemma pop_single:
  "queue_handlers q = [h] \<Longrightarrow> get_top_handler q = (Some h, q\<lparr>queue_handlers := []\<rparr>)"
  by (simp add: get_top_handler_def pq_empty_def pq_pop_def)

lemma get_top_handler_order: "get_top_handler q = (r, q1) \<Longrightarrow> queue_order q1 = queue_order q"
  by (auto simp: get_top_handler_def split: if_splits)

lemma get_top_handler_mset:
  "get_top_handler q = (Some h, q1) \<Longrightarrow> mset (queue_handlers q) = add_mset h (mset (queue_handlers q1))"
  using get_top_handler_Some(1,3) [of q h q1] by simp

lemma add_handlers:
  "queue_handlers (add p f q) = queue_handlers q @ [queued_handler p (queue_order q - 1) f]"
  by (simp add: add_def pq_push_def Let_def)

lemma add_order: "queue_order (add p f q) = queue_order q - 1"
  by (simp add: add_def Let_def)

lemma last_add: "last (queue_handlers (add p f q)) = queued_handler p (queue_order q - 1) f"
  by (simp add: add_def pq_push_def Let_def)

subsection \<open>Successive pops\<close>

text \<open>
  \<open>pop_all\<close> calls \<^verbatim>\<open>get_top_handler\<close> until it returns nothing and lists what it
  returned: the loop of \<^verbatim>\<open>execute_all\<close> without the calls.
\<close>

function pop_all :: "('w::len, 'f) queue \<Rightarrow> ('w, 'f) handler list" where
  "pop_all q =
     (case get_top_handler q of
        (None, q1) \<Rightarrow> []
      | (Some h, q1) \<Rightarrow> h # pop_all q1)"
  by pat_completeness auto

termination pop_all
proof (relation "measure (\<lambda>q. length (queue_handlers q))")
  show "wf (measure (\<lambda>q. length (queue_handlers q)))" by simp
next
  fix q :: "('w::len, 'f) queue" and x y h
  assume "(x, y) = get_top_handler q" "x = Some h"
  then have g: "get_top_handler q = (Some h, y)" by simp
  show "(y, q) \<in> measure (\<lambda>q. length (queue_handlers q))"
    using get_top_handler_Some(1,3) [OF g] length_pos_if_in_set [of h "queue_handlers q"]
    by (simp add: length_remove1)
qed

declare pop_all.simps [simp del]

lemma pop_all_empty: "queue_handlers q = [] \<Longrightarrow> pop_all q = []"
  by (simp add: pop_all.simps [of q] get_top_handler_empty)

lemma pop_all_step: "get_top_handler q = (Some h, q1) \<Longrightarrow> pop_all q = h # pop_all q1"
  by (simp add: pop_all.simps [of q])

lemma mset_pop_all: "mset (pop_all q) = mset (queue_handlers q)"
proof (induction q rule: pop_all.induct)
  case (1 q)
  show ?case
  proof (cases "get_top_handler q")
    case (Pair o1 q1)
    show ?thesis
    proof (cases o1)
      case None
      then show ?thesis using Pair get_top_handler_None [of q q1]
        by (simp add: pop_all_empty)
    next
      case (Some h)
      have g: "get_top_handler q = (Some h, q1)" using Pair Some by simp
      have "mset (pop_all q1) = mset (queue_handlers q1)"
        using "1.IH" [of "Some h" q1 h] g by simp
      then show ?thesis
        using get_top_handler_Some(1,3) [OF g] by (simp add: pop_all_step [OF g])
    qed
  qed
qed

lemma set_pop_all: "set (pop_all q) = set (queue_handlers q)"
  using mset_pop_all [of q] by (metis set_mset_mset)

lemma sorted_pop_all: "sorted_wrt (\<lambda>a b. \<not> handler_less a b) (pop_all q)"
proof (induction q rule: pop_all.induct)
  case (1 q)
  show ?case
  proof (cases "get_top_handler q")
    case (Pair o1 q1)
    show ?thesis
    proof (cases o1)
      case None
      then show ?thesis using Pair get_top_handler_None [of q q1]
        by (simp add: pop_all_empty)
    next
      case (Some h)
      have g: "get_top_handler q = (Some h, q1)" using Pair Some by simp
      have ih: "sorted_wrt (\<lambda>a b. \<not> handler_less a b) (pop_all q1)"
        using "1.IH" [of "Some h" q1 h] g by simp
      have "set (pop_all q1) \<subseteq> set (queue_handlers q)"
        using get_top_handler_Some(3) [OF g] set_remove1_subset [of h "queue_handlers q"]
        by (auto simp: set_pop_all)
      then have "\<forall>b\<in>set (pop_all q1). \<not> handler_less h b"
        using get_top_handler_Some(2) [OF g] by auto
      then show ?thesis using ih by (simp add: pop_all_step [OF g])
    qed
  qed
qed

lemma pop_all_priority_sorted:
  "sorted_wrt (\<lambda>a b. priority b \<le> priority a) (pop_all q)"
  by (rule sorted_wrt_mono_rel [OF _ sorted_pop_all]) (auto simp: handler_less_def)

subsection \<open>Sequences of enqueue calls\<close>

lemma enqueue_all_handlers:
  "queue_handlers (enqueue_all items q) = queue_handlers q @ stamped (queue_order q) items"
  by (induction items q rule: enqueue_all.induct) (simp_all add: add_def pq_push_def Let_def)

lemma enqueue_all_order:
  "queue_order (enqueue_all items q) = queue_order q - of_nat (length items)"
  by (induction items q rule: enqueue_all.induct) (simp_all add: add_def Let_def)

lemma map_item_of_stamped: "map item_of (stamped c items) = items"
  by (induction c items rule: stamped.induct) (simp_all add: item_of_def)

lemma length_stamped: "length (stamped c items) = length items"
  by (induction c items rule: stamped.induct) simp_all

lemma word_pred_less: "c \<noteq> 0 \<Longrightarrow> c - 1 < (c :: 'w::len word)"
  by (simp add: word_less_nat_alt unat_minus_one) (simp add: unat_gt_0)

lemma unat_minus_1_word: "unat (- 1 :: 'w::len word) = 2 ^ LENGTH('w) - 1"
  by (simp add: unsigned_minus_1_eq_mask mask_eq_exp_minus_1)

lemma stamped_below:
  "length items \<le> unat c \<Longrightarrow> h \<in> set (stamped c items) \<Longrightarrow> handler_order h < c"
proof (induction c items rule: stamped.induct)
  case (1 c)
  then show ?case by simp
next
  case (2 c p f items)
  from "2.prems"(1) have c0: "c \<noteq> 0" by (auto simp: unat_eq_0)
  then have less: "c - 1 < c" by (simp add: word_less_nat_alt unat_minus_one) (simp add: unat_gt_0)
  have len: "length items \<le> unat (c - 1)" using "2.prems"(1) c0 by (simp add: unat_minus_one)
  show ?case
  proof (cases "h = queued_handler p (c - 1) f")
    case True
    then show ?thesis using less by simp
  next
    case False
    then have "h \<in> set (stamped (c - 1) items)" using "2.prems"(2) by simp
    then have "handler_order h < c - 1" using "2.IH" len by simp
    then show ?thesis using less by simp
  qed
qed

lemma stamped_decreasing:
  "length items \<le> unat c \<Longrightarrow>
   sorted_wrt (\<lambda>a b. handler_order b < handler_order a) (stamped c items)"
proof (induction c items rule: stamped.induct)
  case (1 c)
  then show ?case by simp
next
  case (2 c p f items)
  from "2.prems"(1) have c0: "c \<noteq> 0" by (auto simp: unat_eq_0)
  have len: "length items \<le> unat (c - 1)" using "2.prems"(1) c0 by (simp add: unat_minus_one)
  show ?case using "2.IH" [OF len] stamped_below [OF len] by simp
qed

lemma stamped_nth:
  "i < length items \<Longrightarrow> handler_order (stamped c items ! i) = c - of_nat (Suc i)"
proof (induction c items arbitrary: i rule: stamped.induct)
  case (1 c)
  then show ?case by simp
next
  case (2 c p f items)
  show ?case
  proof (cases i)
    case 0
    then show ?thesis by simp
  next
    case (Suc j)
    then have "j < length items" using "2.prems" by simp
    then have "handler_order (stamped (c - 1) items ! j) = c - 1 - of_nat (Suc j)"
      by (rule "2.IH")
    then show ?thesis using Suc by simp
  qed
qed

lemma uint_max_minus:
  "uint (- 1 - of_nat k :: 'w::len word) = (2 ^ LENGTH('w) - 1 - int k) mod 2 ^ LENGTH('w)"
proof -
  have "(- 1 - of_nat k :: 'w word) = word_of_int (- 1 - int k)" by simp
  then have "uint (- 1 - of_nat k :: 'w word) = (- 1 - int k) mod 2 ^ LENGTH('w)"
    by (simp only: uint_word_of_int)
  also have "\<dots> = (2 ^ LENGTH('w) - 1 - int k) mod 2 ^ LENGTH('w)"
    by (metis (no_types, opaque_lifting) add.commute diff_add_eq diff_diff_eq mod_add_self1 uminus_add_conv_diff)
  finally show ?thesis .
qed

lemma churn_empty:
  "queue_handlers q = [] \<Longrightarrow> churn n p f q = q\<lparr>queue_order := queue_order q - of_nat n\<rparr>"
proof (induction n arbitrary: q)
  case 0
  then show ?case by simp
next
  case (Suc n)
  have "queue_handlers (add p f q) = [queued_handler p (queue_order q - 1) f]"
    using Suc.prems by (simp add: add_handlers)
  then have "snd (get_top_handler (add p f q)) = (add p f q)\<lparr>queue_handlers := []\<rparr>"
    by (simp add: pop_single)
  also have "\<dots> = q\<lparr>queue_order := queue_order q - 1\<rparr>"
    using Suc.prems by (simp add: add_def Let_def)
  finally have step: "snd (get_top_handler (add p f q)) = q\<lparr>queue_order := queue_order q - 1\<rparr>" .
  show ?case unfolding churn.simps step
    by (subst Suc.IH) (simp_all add: Suc.prems)
qed

lemma sorted_wrt_asym_unique:
  assumes asym: "\<And>a b. R a b \<Longrightarrow> \<not> R b a"
  shows "sorted_wrt R xs \<Longrightarrow> sorted_wrt R ys \<Longrightarrow> mset xs = mset ys \<Longrightarrow> xs = ys"
proof (induction xs arbitrary: ys)
  case Nil
  then show ?case by simp
next
  case (Cons x xs)
  then obtain y ys' where ys: "ys = y # ys'" by (cases ys) auto
  have xy: "x = y"
  proof (rule ccontr)
    assume ne: "x \<noteq> y"
    have "x \<in># mset (y # ys')" using Cons.prems(3) ys by (metis list.set_intros(1) set_mset_mset)
    then have "x \<in> set ys'" using ne by simp
    then have 1: "R y x" using Cons.prems(2) ys by simp
    have "y \<in># mset (x # xs)" using Cons.prems(3) ys by (metis list.set_intros(1) set_mset_mset)
    then have "y \<in> set xs" using ne by simp
    then have "R x y" using Cons.prems(1) by simp
    then show False using 1 asym by blast
  qed
  have "xs = ys'"
    using Cons.IH [of ys'] Cons.prems ys xy by simp
  then show ?case using xy ys by simp
qed

lemma sorted_wrt_strict_distinct:
  "sorted_wrt (\<lambda>a b. f b < f a) xs \<Longrightarrow> distinct (map (f :: 'a \<Rightarrow> 'b::order) xs)"
  by (induction xs) auto

lemma sorted_wrt_and_distinct:
  "sorted_wrt R xs \<Longrightarrow> distinct (map f xs) \<Longrightarrow> sorted_wrt (\<lambda>a b. R a b \<and> f a \<noteq> f b) xs"
  by (induction xs) auto

lemma pop_all_fifo:
  assumes dec: "sorted_wrt (\<lambda>a b. handler_order b < handler_order a) (queue_handlers q)"
  shows "filter (\<lambda>h. priority h = p) (pop_all q) = filter (\<lambda>h. priority h = p) (queue_handlers q)"
proof -
  let ?R = "\<lambda>a b :: ('a, 'b) handler. handler_order b < handler_order a"
  let ?P = "\<lambda>h :: ('a, 'b) handler. priority h = p"
  have "distinct (map handler_order (queue_handlers q))"
    using dec by (rule sorted_wrt_strict_distinct)
  moreover have "mset (map handler_order (pop_all q)) = mset (map handler_order (queue_handlers q))"
    using mset_pop_all [of q] by (metis mset_map)
  ultimately have "distinct (map handler_order (pop_all q))"
    by (metis mset_eq_imp_distinct_iff)
  then have "sorted_wrt (\<lambda>a b. \<not> handler_less a b \<and> handler_order a \<noteq> handler_order b) (pop_all q)"
    using sorted_pop_all by (rule sorted_wrt_and_distinct [rotated])
  then have "sorted_wrt (\<lambda>a b. \<not> handler_less a b \<and> handler_order a \<noteq> handler_order b)
      (filter ?P (pop_all q))"
    by (rule sorted_wrt_filter)
  then have A: "sorted_wrt ?R (filter ?P (pop_all q))"
    by (rule sorted_wrt_mono_rel [rotated]) (auto simp: handler_less_def)
  have B: "sorted_wrt ?R (filter ?P (queue_handlers q))"
    using dec by (rule sorted_wrt_filter)
  have "mset (filter ?P (pop_all q)) = mset (filter ?P (queue_handlers q))"
    using mset_pop_all [of q] by (metis mset_filter)
  with A B show ?thesis
    by (rule sorted_wrt_asym_unique [rotated]) auto
qed

section \<open>Executions\<close>

subsection \<open>Every execution is a sequence of adds and pops\<close>

lemma replay_append:
  "replay (xs @ ys) q = (case replay xs q of None \<Rightarrow> None | Some q1 \<Rightarrow> replay ys q1)"
  by (induction xs arbitrary: q) (simp_all split: option.splits)

lemma replay_appendI:
  "replay xs q = Some q1 \<Longrightarrow> replay ys q1 = Some q2 \<Longrightarrow> replay (xs @ ys) q = Some q2"
  by (simp add: replay_append)

lemma execution_replay:
  "run body n ss q = Some (r, tr, q') \<Longrightarrow> replay tr q = Some q'"
  "execute body n h q = Some (r, tr, q') \<Longrightarrow> \<exists>tr'. tr = Executed h # tr' \<and> replay tr' q = Some q'"
  "execute_highest body n q = Some (rb, tr, q') \<Longrightarrow> replay tr q = Some q'"
  "execute_all body n q = Some (r, tr, q') \<Longrightarrow> replay tr q = Some q'"
proof (induction body n ss q and body n h q and body n q and body n q
    arbitrary: r tr q' and r tr q' and rb tr q' and r tr q'
    rule: run_execute_execute_highest_execute_all.induct)
  case (1 body n q)
  then show ?case by simp
next
  case (2 body n p f ss q)
  then show ?case
    by (auto simp: Let_def last_add split: option.splits)
next
  case (3 body n ss q)
  from "3.prems" consider
    (threw) e where "execute_highest body n q = Some (Inl e, tr, q')"
    | (returned) b tr1 q1 tr2 where "execute_highest body n q = Some (Inr b, tr1, q1)"
        "run body n ss q1 = Some (r, tr2, q')" "tr = tr1 @ tr2"
    by (auto split: option.splits sum.splits)
  then show ?case
  proof cases
    case threw
    then show ?thesis by (rule "3.IH"(1))
  next
    case returned
    have "replay tr1 q = Some q1" using returned(1) by (rule "3.IH"(1))
    moreover have "replay tr2 q1 = Some q'"
      using returned(2) by (rule "3.IH"(2) [OF returned(1) refl refl refl])
    ultimately show ?thesis unfolding returned(3) by (rule replay_appendI)
  qed
next
  case (4 body n ss q)
  from "4.prems" consider
    (threw) e where "execute_all body n q = Some (Inl e, tr, q')"
    | (returned) b tr1 q1 tr2 where "execute_all body n q = Some (Inr b, tr1, q1)"
        "run body n ss q1 = Some (r, tr2, q')" "tr = tr1 @ tr2"
    by (auto split: option.splits sum.splits)
  then show ?case
  proof cases
    case threw
    then show ?thesis by (rule "4.IH"(1))
  next
    case returned
    have "replay tr1 q = Some q1" using returned(1) by (rule "4.IH"(1))
    moreover have "replay tr2 q1 = Some q'"
      using returned(2) by (rule "4.IH"(2) [OF returned(1) refl refl refl])
    ultimately show ?thesis unfolding returned(3) by (rule replay_appendI)
  qed
next
  case (5 body n ss q)
  then show ?case by simp
next
  case (6 body n h q)
  then show ?case by (auto split: option.splits)
next
  case (7 body q)
  then show ?case by simp
next
  case (8 body n q)
  then show ?case
    by (auto split: option.splits sum.splits prod.splits dest: get_top_handler_None) fastforce+
next
  case (9 body q)
  then show ?case by simp
next
  case (10 body n q)
  then show ?case
    by (auto split: option.splits sum.splits prod.splits dest: get_top_handler_None) (fastforce intro: replay_appendI)+
qed

subsection \<open>The invariant\<close>

lemma queue_inv_new: "queue_inv new_queue"
  by (simp add: queue_inv_def new_queue_def)

lemma queue_inv_add:
  assumes "queue_inv q" and "queue_order q \<noteq> 0"
  shows "queue_inv (add p f q)"
proof -
  have less: "queue_order q - 1 < queue_order q" using assms(2) by (rule word_pred_less)
  have above: "queue_order q - 1 < handler_order h" if "h \<in> set (queue_handlers q)" for h
    using assms(1) less that by (auto simp: queue_inv_def)
  have fresh: "queue_order q - 1 \<notin> handler_order ` set (queue_handlers q)"
  proof
    assume "queue_order q - 1 \<in> handler_order ` set (queue_handlers q)"
    then obtain h where "h \<in> set (queue_handlers q)" "handler_order h = queue_order q - 1"
      by auto
    then show False using above [of h] by simp
  qed
  have hs: "queue_handlers (add p f q) = queue_handlers q @ [queued_handler p (queue_order q - 1) f]"
    and c: "queue_order (add p f q) = queue_order q - 1"
    by (simp_all add: add_def pq_push_def Let_def)
  have "distinct (map handler_order (queue_handlers (add p f q)))"
    using assms(1) fresh by (simp add: hs queue_inv_def)
  moreover have "\<forall>h\<in>set (queue_handlers (add p f q)). queue_order (add p f q) \<le> handler_order h"
    using above by (auto simp: hs c less_imp_le)
  ultimately show ?thesis by (simp add: queue_inv_def)
qed

lemma distinct_map_remove1: "distinct (map f xs) \<Longrightarrow> distinct (map f (remove1 x xs))"
proof (induction xs)
  case Nil
  then show ?case by simp
next
  case (Cons y ys)
  have "f ` set (remove1 x ys) \<subseteq> f ` set ys"
    using set_remove1_subset [of x ys] by blast
  then show ?case using Cons by auto
qed

lemma queue_inv_get_top_handler:
  assumes "queue_inv q" and "get_top_handler q = (r, q1)"
  shows "queue_inv q1"
proof (cases r)
  case None
  then show ?thesis using assms get_top_handler_None [of q q1] by simp
next
  case (Some h)
  then have "q1 = q\<lparr>queue_handlers := remove1 h (queue_handlers q)\<rparr>"
    using assms(2) get_top_handler_Some(3) by blast
  then show ?thesis
    using assms(1) set_remove1_subset [of h "queue_handlers q"]
    by (auto simp: queue_inv_def distinct_map_remove1)
qed

lemma queue_inv_total:
  assumes "queue_inv q" "a \<in> set (queue_handlers q)" "b \<in> set (queue_handlers q)" "a \<noteq> b"
  shows "handler_less a b \<or> handler_less b a"
proof -
  have "inj_on handler_order (set (queue_handlers q))"
    using assms(1) by (simp add: queue_inv_def distinct_map)
  then have "handler_order a \<noteq> handler_order b"
    using assms(2-4) by (auto dest: inj_onD)
  then show ?thesis by (auto simp: handler_less_def)
qed

lemma queue_inv_top_unique:
  assumes "queue_inv q" "get_top_handler q = (Some h, q1)" "y \<in> set (queue_handlers q)" "y \<noteq> h"
  shows "handler_less y h"
  using queue_inv_total [OF assms(1) assms(3) get_top_handler_Some(1) [OF assms(2)] assms(4)]
    get_top_handler_Some(2) [OF assms(2) assms(3)] by simp

lemma apply_event_Enqueued:
  assumes "apply_event (Enqueued h) q = Some q1"
  shows "q1 = add (priority h) (handler_function h) q \<and> handler_order h = queue_order q - 1"
proof -
  from assms have q1: "q1 = add (priority h) (handler_function h) q"
    and h: "h = queued_handler (priority h) (queue_order q - 1) (handler_function h)"
    by (auto simp: Let_def last_add split: if_splits)
  have "handler_order h = queue_order q - 1"
    using arg_cong [OF h, of handler_order] by simp
  with q1 show ?thesis by simp
qed

lemma apply_event_Executed:
  "apply_event (Executed h) q = Some q1 \<Longrightarrow> get_top_handler q = (Some h, q1)"
  by (auto split: prod.splits option.splits if_splits)

lemma apply_event_mset:
  assumes "apply_event e q = Some q1"
  shows "mset (queue_handlers q1) + mset (executed_of [e]) =
         mset (queue_handlers q) + mset (enqueued_of [e])"
proof (cases e)
  case (Enqueued h)
  then have "q1 = add (priority h) (handler_function h) q"
    and "h = queued_handler (priority h) (queue_order q - 1) (handler_function h)"
    using assms by (auto simp: Let_def last_add split: if_splits)
  then show ?thesis using Enqueued by (simp add: add_handlers)
next
  case (Executed h)
  then show ?thesis using assms get_top_handler_mset [of q h q1]
    by (simp add: apply_event_Executed)
qed

lemma replay_mset:
  "replay tr q = Some q1 \<Longrightarrow>
   mset (queue_handlers q1) + mset (executed_of tr) =
   mset (queue_handlers q) + mset (enqueued_of tr)"
proof (induction tr arbitrary: q)
  case Nil
  then show ?case by simp
next
  case (Cons e es)
  then obtain q2 where e: "apply_event e q = Some q2" and es: "replay es q2 = Some q1"
    by (auto split: option.splits)
  have 1: "mset (queue_handlers q1) + mset (executed_of es) =
      mset (queue_handlers q2) + mset (enqueued_of es)"
    using es by (rule Cons.IH)
  have 2: "mset (queue_handlers q2) + mset (executed_of [e]) =
      mset (queue_handlers q) + mset (enqueued_of [e])"
    using e by (rule apply_event_mset)
  have x: "mset (executed_of (e # es)) = mset (executed_of [e]) + mset (executed_of es)"
    and n: "mset (enqueued_of (e # es)) = mset (enqueued_of [e]) + mset (enqueued_of es)"
    by (cases e; simp)+
  have "mset (queue_handlers q1) + mset (executed_of (e # es)) =
      (mset (queue_handlers q1) + mset (executed_of es)) + mset (executed_of [e])"
    unfolding x by (simp add: ac_simps)
  also have "\<dots> = (mset (queue_handlers q2) + mset (enqueued_of es)) + mset (executed_of [e])"
    unfolding 1 by (rule refl)
  also have "\<dots> = (mset (queue_handlers q2) + mset (executed_of [e])) + mset (enqueued_of es)"
    by (simp add: ac_simps)
  also have "\<dots> = (mset (queue_handlers q) + mset (enqueued_of [e])) + mset (enqueued_of es)"
    unfolding 2 by (rule refl)
  also have "\<dots> = mset (queue_handlers q) + mset (enqueued_of (e # es))"
    unfolding n by (simp add: ac_simps)
  finally show ?case .
qed

lemma replay_order:
  "replay tr q = Some q1 \<Longrightarrow> queue_order q1 = queue_order q - of_nat (length (enqueued_of tr))"
proof (induction tr arbitrary: q)
  case Nil
  then show ?case by simp
next
  case (Cons e es)
  then obtain q2 where e: "apply_event e q = Some q2" and es: "replay es q2 = Some q1"
    by (auto split: option.splits)
  have ih: "queue_order q1 = queue_order q2 - of_nat (length (enqueued_of es))"
    using es by (rule Cons.IH)
  show ?case
  proof (cases e)
    case (Enqueued h)
    have "q2 = add (priority h) (handler_function h) q"
      using apply_event_Enqueued [OF e [unfolded Enqueued]] by simp
    then have "queue_order q2 = queue_order q - 1" by (simp add: add_order)
    then show ?thesis using ih Enqueued by simp
  next
    case (Executed h)
    have "get_top_handler q = (Some h, q2)"
      using e [unfolded Executed] by (rule apply_event_Executed)
    then have "queue_order q2 = queue_order q" by (rule get_top_handler_order)
    then show ?thesis using ih Executed by simp
  qed
qed

lemma replay_enqueued_nth:
  "replay es q = Some q1 \<Longrightarrow> i < length (enqueued_of es) \<Longrightarrow>
   handler_order (enqueued_of es ! i) = queue_order q - of_nat (Suc i)"
proof (induction es arbitrary: q i)
  case Nil
  then show ?case by simp
next
  case (Cons e es)
  then obtain q2 where e: "apply_event e q = Some q2" and es: "replay es q2 = Some q1"
    by (auto split: option.splits)
  show ?case
  proof (cases e)
    case (Enqueued h)
    note ev = apply_event_Enqueued [OF e [unfolded Enqueued]]
    have q2: "queue_order q2 = queue_order q - 1" using ev by (simp add: add_order)
    show ?thesis
    proof (cases i)
      case 0
      then show ?thesis using Enqueued ev by simp
    next
      case (Suc j)
      then have "j < length (enqueued_of es)" using Cons.prems(2) Enqueued by simp
      then have "handler_order (enqueued_of es ! j) = queue_order q2 - of_nat (Suc j)"
        using es Cons.IH by blast
      then show ?thesis using Suc Enqueued q2 by simp
    qed
  next
    case (Executed h)
    have "get_top_handler q = (Some h, q2)"
      using e [unfolded Executed] by (rule apply_event_Executed)
    then have q2: "queue_order q2 = queue_order q" by (rule get_top_handler_order)
    have "i < length (enqueued_of es)" using Cons.prems(2) Executed by simp
    then have "handler_order (enqueued_of es ! i) = queue_order q2 - of_nat (Suc i)"
      using es Cons.IH by blast
    then show ?thesis using Executed q2 by simp
  qed
qed

lemma replay_queue_inv:
  "replay tr q = Some q1 \<Longrightarrow> queue_inv q \<Longrightarrow> length (enqueued_of tr) \<le> unat (queue_order q) \<Longrightarrow>
   queue_inv q1"
proof (induction tr arbitrary: q)
  case Nil
  then show ?case by simp
next
  case (Cons e es)
  then obtain q2 where e: "apply_event e q = Some q2" and es: "replay es q2 = Some q1"
    by (auto split: option.splits)
  show ?case
  proof (cases e)
    case (Enqueued h)
    have q2: "q2 = add (priority h) (handler_function h) q"
      using apply_event_Enqueued [OF e [unfolded Enqueued]] by simp
    have c0: "queue_order q \<noteq> 0" using Cons.prems(3) Enqueued by (auto simp: unat_eq_0)
    then have "queue_inv q2" using Cons.prems(2) unfolding q2 by (intro queue_inv_add)
    moreover have "length (enqueued_of es) \<le> unat (queue_order q2)"
      using Cons.prems(3) Enqueued c0 by (simp add: q2 add_order unat_minus_one)
    ultimately show ?thesis using es Cons.IH by blast
  next
    case (Executed h)
    have g: "get_top_handler q = (Some h, q2)"
      using e [unfolded Executed] by (rule apply_event_Executed)
    have "queue_inv q2" using Cons.prems(2) g by (rule queue_inv_get_top_handler)
    moreover have "length (enqueued_of es) \<le> unat (queue_order q2)"
      using Cons.prems(3) Executed get_top_handler_order [OF g] by simp
    ultimately show ?thesis using es Cons.IH by blast
  qed
qed

subsection \<open>First in, first out, while the counter has not wrapped\<close>

text \<open>
  Under the invariant, and for no more enqueue calls than the value of the counter, the
  new handlers of a priority are popped after the pending ones of that priority, in the
  order of the calls. On a queue with nothing pending the pops are the stable sort of
  the items by descending priority.
\<close>

lemma pop_all_filter_sorted:
  assumes "distinct (map handler_order (queue_handlers q))"
  shows "sorted_wrt (\<lambda>a b. handler_order b < handler_order a)
           (filter (\<lambda>h. priority h = p) (pop_all q))"
proof -
  have "mset (map handler_order (pop_all q)) = mset (map handler_order (queue_handlers q))"
    using mset_pop_all [of q] by (metis mset_map)
  then have "distinct (map handler_order (pop_all q))"
    using assms by (metis mset_eq_imp_distinct_iff)
  then have "sorted_wrt (\<lambda>a b. \<not> handler_less a b \<and> handler_order a \<noteq> handler_order b) (pop_all q)"
    using sorted_pop_all by (rule sorted_wrt_and_distinct [rotated])
  then have "sorted_wrt (\<lambda>a b. \<not> handler_less a b \<and> handler_order a \<noteq> handler_order b)
      (filter (\<lambda>h. priority h = p) (pop_all q))"
    by (rule sorted_wrt_filter)
  then show ?thesis
    by (rule sorted_wrt_mono_rel [rotated]) (auto simp: handler_less_def)
qed

lemma pop_all_fifo_pending:
  assumes inv: "queue_inv q" and len: "length items \<le> unat (queue_order q)"
  shows "filter (\<lambda>h. priority h = p) (pop_all (enqueue_all items q)) =
         filter (\<lambda>h. priority h = p) (pop_all q) @
         filter (\<lambda>h. priority h = p) (stamped (queue_order q) items)"
proof -
  let ?R = "\<lambda>a b :: ('a, 'b) handler. handler_order b < handler_order a"
  let ?P = "\<lambda>h :: ('a, 'b) handler. priority h = p"
  let ?q = "enqueue_all items q"
  let ?S = "stamped (queue_order q) items"
  have hs: "queue_handlers ?q = queue_handlers q @ ?S" by (rule enqueue_all_handlers)
  have dS: "sorted_wrt ?R ?S" using len by (rule stamped_decreasing)
  have below: "handler_order b < handler_order a"
    if "a \<in> set (queue_handlers q)" "b \<in> set ?S" for a b
  proof -
    have "queue_order q \<le> handler_order a" using inv that(1) by (simp add: queue_inv_def)
    moreover have "handler_order b < queue_order q" using len that(2) by (rule stamped_below)
    ultimately show ?thesis by simp
  qed
  have "distinct (map handler_order (queue_handlers q))" using inv by (simp add: queue_inv_def)
  moreover have "distinct (map handler_order ?S)" using dS by (rule sorted_wrt_strict_distinct)
  moreover have "handler_order ` set (queue_handlers q) \<inter> handler_order ` set ?S = {}"
    using below by force
  ultimately have dq: "distinct (map handler_order (queue_handlers ?q))"
    by (simp add: hs)
  have A: "sorted_wrt ?R (filter ?P (pop_all ?q))"
    using dq by (rule pop_all_filter_sorted)
  have B1: "sorted_wrt ?R (filter ?P (pop_all q))"
    using inv by (intro pop_all_filter_sorted) (simp add: queue_inv_def)
  have B2: "sorted_wrt ?R (filter ?P ?S)" using dS by (rule sorted_wrt_filter)
  have B: "sorted_wrt ?R (filter ?P (pop_all q) @ filter ?P ?S)"
    using B1 B2 below by (auto simp: sorted_wrt_append set_pop_all)
  have "mset (filter ?P (pop_all ?q)) = mset (filter ?P (queue_handlers ?q))"
    using mset_pop_all [of ?q] by (metis mset_filter)
  moreover have "mset (filter ?P (pop_all q)) = mset (filter ?P (queue_handlers q))"
    using mset_pop_all [of q] by (metis mset_filter)
  ultimately have "mset (filter ?P (pop_all ?q)) = mset (filter ?P (pop_all q) @ filter ?P ?S)"
    by (simp add: hs)
  with A B show ?thesis
    by (rule sorted_wrt_asym_unique [rotated]) auto
qed

lemma items_fifo_pending:
  assumes "queue_inv q" and "length items \<le> unat (queue_order q)"
  shows "filter (\<lambda>x. fst x = p) (map item_of (pop_all (enqueue_all items q))) =
         filter (\<lambda>x. fst x = p) (map item_of (pop_all q)) @ filter (\<lambda>x. fst x = p) items"
proof -
  have f: "filter (\<lambda>x. fst x = p) (map item_of hs) =
      map item_of (filter (\<lambda>h. priority h = p) hs)" for hs :: "('a, 'b) handler list"
    by (simp add: filter_map comp_def item_of_def)
  have "filter (\<lambda>x. fst x = p) items =
      filter (\<lambda>x. fst x = p) (map item_of (stamped (queue_order q) items))"
    by (simp only: map_item_of_stamped)
  then show ?thesis
    unfolding f using pop_all_fifo_pending [OF assms, of p] by simp
qed

lemma queue_inv_empty: "queue_handlers q = [] \<Longrightarrow> queue_inv q"
  by (simp add: queue_inv_def)

lemma mset_items_pop_all:
  "queue_handlers q = [] \<Longrightarrow> mset (map item_of (pop_all (enqueue_all items q))) = mset items"
proof -
  assume "queue_handlers q = []"
  then have "mset (pop_all (enqueue_all items q)) = mset (stamped (queue_order q) items)"
    by (simp add: mset_pop_all enqueue_all_handlers)
  then have "mset (map item_of (pop_all (enqueue_all items q))) =
      mset (map item_of (stamped (queue_order q) items))"
    by (metis mset_map)
  then show ?thesis by (simp only: map_item_of_stamped)
qed

lemma items_stable_sort:
  assumes empty: "queue_handlers q = []" and len: "length items \<le> unat (queue_order q)"
  shows "map item_of (pop_all (enqueue_all items q)) = sort_key (\<lambda>x. - fst x) items"
proof (rule properties_for_sort_key [symmetric])
  show "mset (map item_of (pop_all (enqueue_all items q))) = mset items"
    using empty by (rule mset_items_pop_all)
next
  fix k
  have "pop_all q = []" using empty by (rule pop_all_empty)
  then have "filter (\<lambda>x. fst x = fst k) (map item_of (pop_all (enqueue_all items q))) =
      filter (\<lambda>x. fst x = fst k) items"
    using items_fifo_pending [OF queue_inv_empty [OF empty] len, of "fst k"] by simp
  moreover have "(\<lambda>x :: int \<times> 'b. - fst k = - fst x) = (\<lambda>x. fst x = fst k)"
    by auto
  ultimately show "filter (\<lambda>x. - fst k = - fst x) (map item_of (pop_all (enqueue_all items q))) =
      filter (\<lambda>x. - fst k = - fst x) items"
    by simp
next
  have "sorted_wrt (\<lambda>a b. priority b \<le> priority a) (pop_all (enqueue_all items q))"
    by (rule pop_all_priority_sorted)
  then show "sorted (map (\<lambda>x. - fst x) (map item_of (pop_all (enqueue_all items q))))"
    by (simp add: sorted_map sorted_wrt_map item_of_def)
qed

text \<open>
  A queue that has had fewer than \<open>2 ^ w\<close> handlers added since it was made
  satisfies the invariant, and its counter tells how many more can be added.
\<close>

lemma reachable_counter:
  assumes r: "replay tr (new_queue :: ('w::len, 'f) queue) = Some q"
    and len: "length (enqueued_of tr) + length items < 2 ^ LENGTH('w)"
  shows "queue_inv q" and "length items \<le> unat (queue_order q)"
proof -
  let ?k = "length (enqueued_of tr)"
  have k: "?k \<le> unat (queue_order (new_queue :: ('w, 'f) queue))"
    using len by (simp add: new_queue_def unat_minus_1_word)
  show "queue_inv q" using r queue_inv_new k by (rule replay_queue_inv)
  have "queue_order q = - 1 - of_nat ?k"
    using replay_order [OF r] by (simp add: new_queue_def)
  then have "uint (queue_order q) = (2 ^ LENGTH('w) - 1 - int ?k) mod 2 ^ LENGTH('w)"
    by (simp only: uint_max_minus)
  also have "\<dots> = 2 ^ LENGTH('w) - 1 - int ?k"
  proof (rule mod_pos_pos_trivial)
    show "0 \<le> 2 ^ LENGTH('w) - 1 - int ?k" using len by simp
    show "2 ^ LENGTH('w) - 1 - int ?k < 2 ^ LENGTH('w)" by simp
  qed
  finally have "int (unat (queue_order q)) = 2 ^ LENGTH('w) - 1 - int ?k" by simp
  moreover have "int ?k + int (length items) < 2 ^ LENGTH('w)"
    using len by (metis of_nat_add of_nat_less_numeral_power_cancel_iff)
  ultimately show "length items \<le> unat (queue_order q)" by linarith
qed

text \<open>
  The bound cannot be raised: the handler of the \<open>2 ^ 64\<close>-th call gets the largest
  sequence value and overtakes a pending handler of its priority.
\<close>

lemma fifo_bound_tight:
  "map item_of (pop_all (enqueue_all [(10, ''A''), (10, ''C'')]
      (churn (2 ^ 64 - 2) 10 ''X'' (new_queue :: (64, string) queue)))) =
     [(10, ''C''), (10, ''A'')]"
proof -
  have "churn (2 ^ 64 - 2) 10 ''X'' (new_queue :: (64, string) queue) =
      \<lparr>queue_handlers = [], queue_order = 1\<rparr>"
    by (subst churn_empty) (simp_all add: new_queue_def)
  moreover have "map item_of (pop_all (enqueue_all [(10, ''A''), (10, ''C'')]
      \<lparr>queue_handlers = [], queue_order = 1 :: 64 word\<rparr>)) = [(10, ''C''), (10, ''A'')]"
    by code_simp
  ultimately show ?thesis by simp
qed

subsection \<open>One step of the two public members\<close>

lemma execute_highest_empty:
  "queue_handlers q = [] \<Longrightarrow> execute_highest body (Suc n) q = Some (Inr False, [], q)"
  by (simp add: get_top_handler_empty pq_empty_def)

lemma execute_all_empty:
  "queue_handlers q = [] \<Longrightarrow> execute_all body (Suc n) q = Some (Inr (), [], q)"
  by (simp add: get_top_handler_empty)

lemma execute_highest_step:
  "get_top_handler q = (Some h, q1) \<Longrightarrow>
   execute_highest body (Suc n) q =
     (case run body n (body h) q1 of
        None \<Rightarrow> None
      | Some (Inl e, tr, q2) \<Rightarrow> Some (Inl e, Executed h # tr, q2)
      | Some (Inr u, tr, q2) \<Rightarrow> Some (Inr (queue_handlers q2 \<noteq> []), Executed h # tr, q2))"
  by (simp add: pq_empty_def split: option.splits sum.splits prod.splits)

lemma execute_all_step:
  "get_top_handler q = (Some h, q1) \<Longrightarrow>
   execute_all body (Suc n) q =
     (case run body n (body h) q1 of
        None \<Rightarrow> None
      | Some (Inl e, tr, q2) \<Rightarrow> Some (Inl e, Executed h # tr, q2)
      | Some (Inr u, tr, q2) \<Rightarrow>
          (case execute_all body n q2 of
             None \<Rightarrow> None
           | Some (r, tr', q3) \<Rightarrow> Some (r, Executed h # tr @ tr', q3)))"
  by (simp split: option.splits sum.splits prod.splits)

declare execute.simps [simp del]
declare execute_highest.simps(2) [simp del]
declare execute_all.simps(2) [simp del]

lemma execute_all_returns_empty:
  "execute_all body n q = Some (Inr u, tr, q') \<Longrightarrow> queue_handlers q' = []"
proof (induction n arbitrary: q tr)
  case 0
  then show ?case by simp
next
  case (Suc n)
  show ?case
  proof (cases "queue_handlers q = []")
    case True
    then show ?thesis using Suc.prems by (simp add: execute_all_empty)
  next
    case False
    then obtain h q1 where g: "get_top_handler q = (Some h, q1)"
      using get_top_handler_nonempty by blast
    show ?thesis
      using Suc.prems Suc.IH unfolding execute_all_step [OF g]
      by (auto split: option.splits sum.splits prod.splits)
  qed
qed


lemma execute_all_inert:
  "\<forall>h\<in>set (queue_handlers q). body h = [] \<Longrightarrow>
   execute_all body (Suc (length (queue_handlers q))) q =
     Some (Inr (), map Executed (pop_all q), q\<lparr>queue_handlers := []\<rparr>)"
proof (induction q rule: pop_all.induct)
  case (1 q)
  show ?case
  proof (cases "queue_handlers q = []")
    case True
    then show ?thesis by (simp add: execute_all_empty pop_all_empty)
  next
    case False
    then obtain h q1 where g: "get_top_handler q = (Some h, q1)"
      using get_top_handler_nonempty by blast
    note top = get_top_handler_Some [OF g]
    have len: "length (queue_handlers q) = Suc (length (queue_handlers q1))"
      using top(1) length_pos_if_in_set [of h "queue_handlers q"] by (simp add: top(3) length_remove1)
    have "\<forall>h\<in>set (queue_handlers q1). body h = []"
      using "1.prems" set_remove1_subset [of h "queue_handlers q"] by (auto simp: top(3))
    then have ih: "execute_all body (Suc (length (queue_handlers q1))) q1 =
        Some (Inr (), map Executed (pop_all q1), q1\<lparr>queue_handlers := []\<rparr>)"
      using "1.IH" [OF g [symmetric] refl] by simp
    have b: "body h = []" using "1.prems" top(1) by simp
    show ?thesis
      unfolding len execute_all_step [OF g] using ih
      by (simp add: b pop_all_step [OF g] top(3))
  qed
qed

text \<open>More fuel does not change the outcome of an execution that returned.\<close>

lemma fuel_Suc:
  "run body n ss q = Some x \<Longrightarrow> run body (Suc n) ss q = Some x"
  "execute body n h q = Some x \<Longrightarrow> execute body (Suc n) h q = Some x"
  "execute_highest body n q = Some y \<Longrightarrow> execute_highest body (Suc n) q = Some y"
  "execute_all body n q = Some x \<Longrightarrow> execute_all body (Suc n) q = Some x"
proof (induction body n ss q and body n h q and body n q and body n q
    arbitrary: x and x and y and x
    rule: run_execute_execute_highest_execute_all.induct)
  case (1 body n q)
  then show ?case by simp
next
  case (2 body n p f ss q)
  then show ?case by (auto simp: Let_def split: option.splits)
next
  case (3 body n ss q)
  from "3.prems" consider
    (threw) e tr q1 where "execute_highest body n q = Some (Inl e, tr, q1)" "x = (Inl e, tr, q1)"
    | (returned) b tr1 q1 z where "execute_highest body n q = Some (Inr b, tr1, q1)"
        "run body n ss q1 = Some z" "x = (fst z, tr1 @ fst (snd z), snd (snd z))"
    by (auto split: option.splits sum.splits)
  then show ?case
  proof cases
    case threw
    have "execute_highest body (Suc n) q = Some (Inl e, tr, q1)"
      using threw(1) by (rule "3.IH"(1))
    then show ?thesis using threw(2) by simp
  next
    case returned
    have "execute_highest body (Suc n) q = Some (Inr b, tr1, q1)"
      using returned(1) by (rule "3.IH"(1))
    moreover have "run body (Suc n) ss q1 = Some z"
      using returned(2) by (rule "3.IH"(2) [OF returned(1) refl refl refl])
    ultimately show ?thesis using returned(3) by (simp split: prod.splits)
  qed
next
  case (4 body n ss q)
  from "4.prems" consider
    (threw) e tr q1 where "execute_all body n q = Some (Inl e, tr, q1)" "x = (Inl e, tr, q1)"
    | (returned) b tr1 q1 z where "execute_all body n q = Some (Inr b, tr1, q1)"
        "run body n ss q1 = Some z" "x = (fst z, tr1 @ fst (snd z), snd (snd z))"
    by (auto split: option.splits sum.splits)
  then show ?case
  proof cases
    case threw
    have "execute_all body (Suc n) q = Some (Inl e, tr, q1)"
      using threw(1) by (rule "4.IH"(1))
    then show ?thesis using threw(2) by simp
  next
    case returned
    have "execute_all body (Suc n) q = Some (Inr b, tr1, q1)"
      using returned(1) by (rule "4.IH"(1))
    moreover have "run body (Suc n) ss q1 = Some z"
      using returned(2) by (rule "4.IH"(2) [OF returned(1) refl refl refl])
    ultimately show ?thesis using returned(3) by (simp split: prod.splits)
  qed
next
  case (5 body n ss q)
  then show ?case by simp
next
  case (6 body n h q)
  then show ?case by (auto simp: execute.simps split: option.splits)
next
  case (7 body q)
  then show ?case by simp
next
  case (8 body n q)
  show ?case
  proof (cases "get_top_handler q")
    case (Pair o1 q1)
    show ?thesis
    proof (cases o1)
      case None
      then show ?thesis using Pair "8.prems" by (simp add: execute_highest.simps(2))
    next
      case (Some h)
      then show ?thesis using Pair "8.prems" "8.IH" [of o1 q1 h]
        by (auto simp: execute_highest.simps(2) split: option.splits sum.splits)
    qed
  qed
next
  case (9 body q)
  then show ?case by simp
next
  case (10 body n q)
  show ?case
  proof (cases "get_top_handler q")
    case (Pair o1 q1)
    show ?thesis
    proof (cases o1)
      case None
      then show ?thesis using Pair "10.prems" by (simp add: execute_all.simps(2))
    next
      case (Some h)
      then have g: "get_top_handler q = (Some h, q1)" using Pair by simp
      from "10.prems" consider
        (threw) e tr q2 where "execute body n h q1 = Some (Inl e, tr, q2)" "x = (Inl e, tr, q2)"
        | (returned) u tr1 q2 z where "execute body n h q1 = Some (Inr u, tr1, q2)"
            "execute_all body n q2 = Some z" "x = (fst z, tr1 @ fst (snd z), snd (snd z))"
        by (auto simp: execute_all.simps(2) g split: option.splits sum.splits)
      then show ?thesis
      proof cases
        case threw
        have "execute body (Suc n) h q1 = Some (Inl e, tr, q2)"
          using threw(1) by (rule "10.IH"(1) [OF g [symmetric] refl])
        then show ?thesis using threw(2) by (simp add: execute_all.simps(2) g)
      next
        case returned
        have "execute body (Suc n) h q1 = Some (Inr u, tr1, q2)"
          using returned(1) by (rule "10.IH"(1) [OF g [symmetric] refl])
        moreover have "execute_all body (Suc n) q2 = Some z"
          using returned(2) by (rule "10.IH"(2) [OF g [symmetric] refl returned(1) refl refl refl])
        ultimately show ?thesis using returned(3)
          by (simp add: execute_all.simps(2) [of body "Suc n"] g split: prod.splits)
      qed
    qed
  qed
qed

subsection \<open>Executions that return\<close>

lemma enqueued_of_append: "enqueued_of (tr @ tr') = enqueued_of tr @ enqueued_of tr'"
  by (induction tr rule: enqueued_of.induct) simp_all

lemma executed_of_append: "executed_of (tr @ tr') = executed_of tr @ executed_of tr'"
  by (induction tr rule: executed_of.induct) simp_all

lemma adds_of_simps:
  "adds_of body [] = {#}"
  "adds_of body (Enqueued h # tr) = adds_of body tr"
  "adds_of body (Executed h # tr) = mset (adds (body h)) + adds_of body tr"
  "adds_of body (tr @ tr') = adds_of body tr + adds_of body tr'"
  by (simp_all add: adds_of_def executed_of_append)

lemma weight_add: "weight cost (add p f q) = weight cost q + Suc (cost f)"
  by (simp add: weight_def add_handlers)

lemma weight_empty: "queue_handlers q = [] \<Longrightarrow> weight cost q = 0"
  by (simp add: weight_def)

lemma weight_0: "weight cost q = 0 \<Longrightarrow> queue_handlers q = []"
  by (cases "queue_handlers q") (simp_all add: weight_def)

lemma weight_pop:
  "get_top_handler q = (Some h, q1) \<Longrightarrow>
   weight cost q = Suc (cost (handler_function h)) + weight cost q1"
  using get_top_handler_Some(1,3) [of q h q1]
  by (simp add: weight_def sum_list_map_remove1)

text \<open>
  With a ranking, fuel above the weight of the queue is enough: both public members
  return, and the items added during the execution are those that the callables of
  the executed handlers add.
\<close>

lemma run_returns:
  assumes A: "\<And>q. weight cost q \<le> m \<Longrightarrow>
      \<exists>tr q'. execute_all body (Suc m) q = Some (Inr (), tr, q') \<and>
        mset (map item_of (enqueued_of tr)) = adds_of body tr"
    and H: "\<And>q. weight cost q \<le> m \<Longrightarrow>
      \<exists>b tr q'. execute_highest body (Suc m) q = Some (Inr b, tr, q') \<and>
        weight cost q' \<le> weight cost q \<and>
        mset (map item_of (enqueued_of tr)) = adds_of body tr"
  shows "Throw \<notin> set ss \<Longrightarrow> weight cost q + added cost ss \<le> m \<Longrightarrow>
     \<exists>tr q'. run body (Suc m) ss q = Some (Inr (), tr, q') \<and>
       weight cost q' \<le> weight cost q + added cost ss \<and>
       mset (map item_of (enqueued_of tr)) = mset (adds ss) + adds_of body tr"
proof (induction ss arbitrary: q)
  case Nil
  then show ?case by (simp add: adds_of_simps)
next
  case (Cons s ss)
  show ?case
  proof (cases s)
    case (Call_add p f)
    let ?q1 = "add p f q"
    have "weight cost ?q1 + added cost ss \<le> m"
      using Cons.prems(2) Call_add by (simp add: weight_add added_def)
    then obtain tr q' where r: "run body (Suc m) ss ?q1 = Some (Inr (), tr, q')"
      and w: "weight cost q' \<le> weight cost ?q1 + added cost ss"
      and t: "mset (map item_of (enqueued_of tr)) = mset (adds ss) + adds_of body tr"
      using Cons.IH [of ?q1] Cons.prems(1) by auto
    have "run body (Suc m) (s # ss) q =
        Some (Inr (), Enqueued (last (queue_handlers ?q1)) # tr, q')"
      using r Call_add by (simp add: Let_def)
    moreover have "weight cost q' \<le> weight cost q + added cost (s # ss)"
      using w Call_add by (simp add: weight_add added_def)
    moreover have "mset (map item_of (enqueued_of (Enqueued (last (queue_handlers ?q1)) # tr))) =
        mset (adds (s # ss)) + adds_of body (Enqueued (last (queue_handlers ?q1)) # tr)"
      using t Call_add by (simp add: last_add item_of_def adds_of_simps)
    ultimately show ?thesis by blast
  next
    case Call_execute_highest
    have "weight cost q \<le> m" using Cons.prems(2) by simp
    then obtain b tr1 q1 where h: "execute_highest body (Suc m) q = Some (Inr b, tr1, q1)"
      and w1: "weight cost q1 \<le> weight cost q"
      and t1: "mset (map item_of (enqueued_of tr1)) = adds_of body tr1"
      using H by blast
    have "weight cost q1 + added cost ss \<le> m"
      using Cons.prems(2) w1 Call_execute_highest by (simp add: added_def)
    then obtain tr q' where r: "run body (Suc m) ss q1 = Some (Inr (), tr, q')"
      and w: "weight cost q' \<le> weight cost q1 + added cost ss"
      and t: "mset (map item_of (enqueued_of tr)) = mset (adds ss) + adds_of body tr"
      using Cons.IH [of q1] Cons.prems(1) by auto
    have "run body (Suc m) (s # ss) q = Some (Inr (), tr1 @ tr, q')"
      using r h Call_execute_highest by simp
    moreover have "weight cost q' \<le> weight cost q + added cost (s # ss)"
      using w w1 Call_execute_highest by (simp add: added_def)
    moreover have "mset (map item_of (enqueued_of (tr1 @ tr))) =
        mset (adds (s # ss)) + adds_of body (tr1 @ tr)"
      using t t1 Call_execute_highest by (simp add: enqueued_of_append adds_of_simps)
    ultimately show ?thesis by blast
  next
    case Call_execute_all
    have "weight cost q \<le> m" using Cons.prems(2) by simp
    then obtain tr1 q1 where h: "execute_all body (Suc m) q = Some (Inr (), tr1, q1)"
      and t1: "mset (map item_of (enqueued_of tr1)) = adds_of body tr1"
      using A by blast
    have "queue_handlers q1 = []" using h by (rule execute_all_returns_empty)
    then have w1: "weight cost q1 = 0" by (rule weight_empty)
    have "weight cost q1 + added cost ss \<le> m"
      using Cons.prems(2) w1 Call_execute_all by (simp add: added_def)
    then obtain tr q' where r: "run body (Suc m) ss q1 = Some (Inr (), tr, q')"
      and w: "weight cost q' \<le> weight cost q1 + added cost ss"
      and t: "mset (map item_of (enqueued_of tr)) = mset (adds ss) + adds_of body tr"
      using Cons.IH [of q1] Cons.prems(1) by auto
    have "run body (Suc m) (s # ss) q = Some (Inr (), tr1 @ tr, q')"
      using r h Call_execute_all by simp
    moreover have "weight cost q' \<le> weight cost q + added cost (s # ss)"
      using w w1 Call_execute_all by (simp add: added_def)
    moreover have "mset (map item_of (enqueued_of (tr1 @ tr))) =
        mset (adds (s # ss)) + adds_of body (tr1 @ tr)"
      using t t1 Call_execute_all by (simp add: enqueued_of_append adds_of_simps)
    ultimately show ?thesis by blast
  next
    case Throw
    then show ?thesis using Cons.prems(1) by simp
  qed
qed

lemma ranked_returns:
  assumes b: "ranked cost body"
  shows "weight cost q \<le> n \<Longrightarrow>
     (\<exists>tr q'. execute_all body (Suc n) q = Some (Inr (), tr, q') \<and>
        mset (map item_of (enqueued_of tr)) = adds_of body tr) \<and>
     (\<exists>b tr q'. execute_highest body (Suc n) q = Some (Inr b, tr, q') \<and>
        weight cost q' \<le> weight cost q \<and>
        mset (map item_of (enqueued_of tr)) = adds_of body tr)"
proof (induction n arbitrary: q)
  case 0
  then have "queue_handlers q = []" by (simp add: weight_0)
  then show ?case by (auto simp: execute_all_empty execute_highest_empty adds_of_simps)
next
  case (Suc n)
  show ?case
  proof (cases "queue_handlers q = []")
    case True
    then show ?thesis by (auto simp: execute_all_empty execute_highest_empty adds_of_simps)
  next
    case False
    then obtain h q1 where g: "get_top_handler q = (Some h, q1)"
      using get_top_handler_nonempty by blast
    have nt: "Throw \<notin> set (body h)"
      and le: "added cost (body h) \<le> cost (handler_function h)"
      using b by (simp_all add: ranked_def)
    have wq: "weight cost q = Suc (cost (handler_function h)) + weight cost q1"
      using g by (rule weight_pop)
    have "weight cost q1 + added cost (body h) \<le> n"
      using Suc.prems le wq by simp
    then obtain tr q2 where run: "run body (Suc n) (body h) q1 = Some (Inr (), tr, q2)"
      and w2: "weight cost q2 \<le> weight cost q1 + added cost (body h)"
      and t: "mset (map item_of (enqueued_of tr)) = mset (adds (body h)) + adds_of body tr"
      using run_returns [of cost n body "body h" q1] Suc.IH nt by blast
    have w2n: "weight cost q2 \<le> n" using w2 Suc.prems le wq by simp
    then obtain tr' q3 where rest: "execute_all body (Suc n) q2 = Some (Inr (), tr', q3)"
      and t': "mset (map item_of (enqueued_of tr')) = adds_of body tr'"
      using Suc.IH by blast
    have 1: "execute_all body (Suc (Suc n)) q = Some (Inr (), Executed h # tr @ tr', q3)"
      unfolding execute_all_step [OF g] by (simp add: run rest)
    have 2: "mset (map item_of (enqueued_of (Executed h # tr @ tr'))) =
        adds_of body (Executed h # tr @ tr')"
      using t t' by (simp add: enqueued_of_append adds_of_simps)
    have 3: "execute_highest body (Suc (Suc n)) q =
        Some (Inr (queue_handlers q2 \<noteq> []), Executed h # tr, q2)"
      unfolding execute_highest_step [OF g] by (simp add: run)
    have 4: "mset (map item_of (enqueued_of (Executed h # tr))) = adds_of body (Executed h # tr)"
      using t by (simp add: adds_of_simps)
    have 5: "weight cost q2 \<le> weight cost q" using w2 le wq by simp
    show ?thesis using 1 2 3 4 5 by blast
  qed
qed

text \<open>
  Without one \<^verbatim>\<open>execute_all\<close> need not return: if every callable adds itself
  again, the execution is still running whatever the fuel.
\<close>

lemma execute_all_diverges:
  assumes again: "\<And>h. body h = [Call_add (priority h) (handler_function h)]"
  shows "queue_handlers q \<noteq> [] \<Longrightarrow> execute_all body n q = None"
proof (induction n arbitrary: q)
  case 0
  then show ?case by simp
next
  case (Suc n)
  then obtain h q1 where g: "get_top_handler q = (Some h, q1)"
    using get_top_handler_nonempty by blast
  let ?q2 = "add (priority h) (handler_function h) q1"
  have run: "run body n (body h) q1 = Some (Inr (), [Enqueued (last (queue_handlers ?q2))], ?q2)"
    by (simp add: again Let_def)
  have "queue_handlers ?q2 \<noteq> []" by (simp add: add_handlers)
  then have "execute_all body n ?q2 = None" by (rule Suc.IH)
  then show ?case unfolding execute_all_step [OF g] by (simp add: run)
qed

section \<open>The properties of the specification\<close>

subsection \<open>C1: priority order, then first in first out\<close>

text \<open>
  C1, as the specification states it: for every finite sequence of enqueue calls
  followed by successive pops the items come back by priority, highest first, and
  items of equal priority in the order they were enqueued; so that (10, A), (100, B),
  (10, C), (50, D) is executed as B, D, A, C.

  The order among equal priorities is the order of the sequence values, and those wrap
  around. On a queue that has handled \<open>2 ^ 64 - 2\<close> handlers before (each added and
  popped, so that the counter is 1), the four items of the example get the sequence
  values 0, \<open>2 ^ 64 - 1\<close>, \<open>2 ^ 64 - 2\<close> and \<open>2 ^ 64 - 3\<close>, and they are executed
  as B, D, C, A.
\<close>

theorem fifo_after_wrap_counterexample:
  "map item_of (pop_all (enqueue_all ex_items
      (churn (2 ^ 64 - 2) 10 ''X'' (new_queue :: (64, string) queue)))) =
     [(100, ''B''), (50, ''D''), (10, ''C''), (10, ''A'')] \<and>
   map item_of (pop_all (enqueue_all ex_items
      (churn (2 ^ 64 - 2) 10 ''X'' (new_queue :: (64, string) queue)))) \<noteq>
     [(100, ''B''), (50, ''D''), (10, ''A''), (10, ''C'')] \<and>
   execute_all inert 5 (enqueue_all ex_items
      (churn (2 ^ 64 - 2) 10 ''X'' (new_queue :: (64, string) queue))) =
     Some (Inr (),
       [Executed (queued_handler 100 (- 1) ''B''), Executed (queued_handler 50 (- 3) ''D''),
        Executed (queued_handler 10 (- 2) ''C''), Executed (queued_handler 10 0 ''A'')],
       \<lparr>queue_handlers = [], queue_order = - 3\<rparr>)"
proof -
  have "churn (2 ^ 64 - 2) 10 ''X'' (new_queue :: (64, string) queue) =
      \<lparr>queue_handlers = [], queue_order = 1\<rparr>"
    by (subst churn_empty) (simp_all add: new_queue_def)
  moreover have "map item_of (pop_all (enqueue_all ex_items
      \<lparr>queue_handlers = [], queue_order = 1 :: 64 word\<rparr>)) =
     [(100, ''B''), (50, ''D''), (10, ''C''), (10, ''A'')]"
    by code_simp
  moreover have "execute_all inert 5 (enqueue_all ex_items
      \<lparr>queue_handlers = [], queue_order = 1 :: 64 word\<rparr>) =
     Some (Inr (),
       [Executed (queued_handler 100 (- 1) ''B''), Executed (queued_handler 50 (- 3) ''D''),
        Executed (queued_handler 10 (- 2) ''C''), Executed (queued_handler 10 0 ''A'')],
       \<lparr>queue_handlers = [], queue_order = - 3\<rparr>)"
    by code_simp
  ultimately show ?thesis by simp
qed

text \<open>
  C1, amended. The claim holds while the counter has not wrapped. The successive pops
  always return the items sorted by priority, non-increasing. If the pending handlers
  satisfy the invariant of C10 and the enqueue calls are no more than the value of the
  counter, as on every queue that has had, these calls included, fewer than \<open>2 ^ w\<close>
  handlers added since it was made (\<open>w\<close> the width of \<^verbatim>\<open>size_t\<close>), then for
  each priority \<open>p\<close> the items of priority \<open>p\<close> come out in the order they went in,
  after the handlers of priority \<open>p\<close> that were pending before the calls. If nothing
  was pending before the calls, the pops return the stable sort of the items by
  descending priority, so that (10, A), (100, B), (10, C), (50, D) is executed as
  B, D, A, C. And \<^verbatim>\<open>execute_all\<close>, on callables that leave the queue alone, returns
  after executing exactly the popped sequence.
\<close>

theorem pops_priority_then_fifo_bounded:
  "sorted_wrt (\<lambda>x y. fst y \<le> fst x) (map item_of (pop_all (enqueue_all items q))) \<and>
   (queue_inv q \<and> length items \<le> unat (queue_order q) \<longrightarrow>
      filter (\<lambda>x. fst x = p) (map item_of (pop_all (enqueue_all items q))) =
      filter (\<lambda>x. fst x = p) (map item_of (pop_all q)) @ filter (\<lambda>x. fst x = p) items) \<and>
   (replay tr (new_queue :: ('w::len, 'f) queue) = Some q \<and>
      length (enqueued_of tr) + length items < 2 ^ LENGTH('w) \<longrightarrow>
      filter (\<lambda>x. fst x = p) (map item_of (pop_all (enqueue_all items q))) =
      filter (\<lambda>x. fst x = p) (map item_of (pop_all q)) @ filter (\<lambda>x. fst x = p) items) \<and>
   (queue_handlers q = [] \<and> length items \<le> unat (queue_order q) \<longrightarrow>
      map item_of (pop_all (enqueue_all items q)) = sort_key (\<lambda>x. - fst x) items) \<and>
   ((\<forall>h\<in>set (queue_handlers (enqueue_all items q)). body h = []) \<longrightarrow>
      execute_all body (Suc (length (queue_handlers (enqueue_all items q)))) (enqueue_all items q) =
        Some (Inr (), map Executed (pop_all (enqueue_all items q)),
          (enqueue_all items q)\<lparr>queue_handlers := []\<rparr>))"
proof (intro conjI impI)
  show "sorted_wrt (\<lambda>x y. fst y \<le> fst x) (map item_of (pop_all (enqueue_all items q)))"
    using pop_all_priority_sorted [of "enqueue_all items q"]
    by (simp add: sorted_wrt_map item_of_def)
next
  assume "queue_inv q \<and> length items \<le> unat (queue_order q)"
  then show "filter (\<lambda>x. fst x = p) (map item_of (pop_all (enqueue_all items q))) =
      filter (\<lambda>x. fst x = p) (map item_of (pop_all q)) @ filter (\<lambda>x. fst x = p) items"
    by (simp add: items_fifo_pending)
next
  assume "replay tr (new_queue :: ('w, 'f) queue) = Some q \<and>
      length (enqueued_of tr) + length items < 2 ^ LENGTH('w)"
  then have "queue_inv q" and "length items \<le> unat (queue_order q)"
    using reachable_counter [of tr q items] by simp_all
  then show "filter (\<lambda>x. fst x = p) (map item_of (pop_all (enqueue_all items q))) =
      filter (\<lambda>x. fst x = p) (map item_of (pop_all q)) @ filter (\<lambda>x. fst x = p) items"
    by (rule items_fifo_pending)
next
  assume "queue_handlers q = [] \<and> length items \<le> unat (queue_order q)"
  then show "map item_of (pop_all (enqueue_all items q)) = sort_key (\<lambda>x. - fst x) items"
    by (simp add: items_stable_sort)
next
  assume "\<forall>h\<in>set (queue_handlers (enqueue_all items q)). body h = []"
  then show "execute_all body (Suc (length (queue_handlers (enqueue_all items q))))
      (enqueue_all items q) =
      Some (Inr (), map Executed (pop_all (enqueue_all items q)),
        (enqueue_all items q)\<lparr>queue_handlers := []\<rparr>)"
    by (rule execute_all_inert)
qed

theorem pops_priority_then_fifo_bounded_witness:
  "queue_inv (add 10 ''X'' (new_queue :: (64, string) queue)) \<and>
   length ex_items \<le> unat (queue_order (add 10 ''X'' (new_queue :: (64, string) queue))) \<and>
   replay [Enqueued (queued_handler 10 (- 2) ''X'')] (new_queue :: (64, string) queue) =
     Some (add 10 ''X'' new_queue) \<and>
   length (enqueued_of [Enqueued (queued_handler 10 (- 2 :: 64 word) ''X'')]) + length ex_items
     < 2 ^ LENGTH(64) \<and>
   filter (\<lambda>x. fst x = 10)
     (map item_of (pop_all (enqueue_all ex_items (add 10 ''X'' (new_queue :: (64, string) queue))))) =
     filter (\<lambda>x. fst x = 10) (map item_of (pop_all (add 10 ''X'' (new_queue :: (64, string) queue)))) @
     filter (\<lambda>x. fst x = 10) ex_items \<and>
   map item_of (pop_all (enqueue_all ex_items (add 10 ''X'' (new_queue :: (64, string) queue)))) =
     [(100, ''B''), (50, ''D''), (10, ''X''), (10, ''A''), (10, ''C'')] \<and>
   queue_handlers (new_queue :: (64, string) queue) = [] \<and>
   length ex_items \<le> unat (queue_order (new_queue :: (64, string) queue)) \<and>
   map item_of (pop_all (enqueue_all ex_items (new_queue :: (64, string) queue))) =
     sort_key (\<lambda>x. - fst x) ex_items \<and>
   map item_of (pop_all (enqueue_all ex_items (new_queue :: (64, string) queue))) =
     [(100, ''B''), (50, ''D''), (10, ''A''), (10, ''C'')] \<and>
   sorted_wrt (\<lambda>x y. fst y \<le> fst x)
     (map item_of (pop_all (enqueue_all ex_items (new_queue :: (64, string) queue)))) \<and>
   execute_all inert (Suc (length (queue_handlers (enqueue_all ex_items (new_queue :: (64, string) queue)))))
       (enqueue_all ex_items (new_queue :: (64, string) queue)) =
     Some (Inr (), map Executed (pop_all (enqueue_all ex_items new_queue)),
       (enqueue_all ex_items new_queue)\<lparr>queue_handlers := []\<rparr>) \<and>
   execute_all inert 5 (enqueue_all ex_items (new_queue :: (64, string) queue)) =
     Some (Inr (),
       [Executed (queued_handler 100 (- 3) ''B''), Executed (queued_handler 50 (- 5) ''D''),
        Executed (queued_handler 10 (- 2) ''A''), Executed (queued_handler 10 (- 4) ''C'')],
       \<lparr>queue_handlers = [], queue_order = - 5\<rparr>)"
proof -
  let ?q = "new_queue :: (64, string) queue"
  let ?qx = "add 10 ''X'' (new_queue :: (64, string) queue)"
  let ?tr = "[Enqueued (queued_handler 10 (- 2 :: 64 word) ''X'')]"
  have h1: "queue_handlers ?q = []"
    by (simp add: new_queue_def)
  have h2: "length ex_items \<le> unat (queue_order ?q)"
    by (simp add: new_queue_def ex_items_def unat_minus_1_word)
  have h3: "\<forall>h\<in>set (queue_handlers (enqueue_all ex_items ?q)). inert h = []"
    by (simp add: inert_def)
  have h4: "queue_inv ?qx"
    by (rule queue_inv_add [OF queue_inv_new]) (simp add: new_queue_def)
  have h6: "replay ?tr ?q = Some ?qx"
    by code_simp
  have h7: "length (enqueued_of ?tr) + length ex_items < 2 ^ LENGTH(64)"
    by (simp add: ex_items_def)
  have h5: "length ex_items \<le> unat (queue_order ?qx)"
    using h6 h7 by (rule reachable_counter(2))
  have ev: "map item_of (pop_all (enqueue_all ex_items ?q)) =
     [(100, ''B''), (50, ''D''), (10, ''A''), (10, ''C'')]"
    by code_simp
  have evx: "map item_of (pop_all (enqueue_all ex_items ?qx)) =
     [(100, ''B''), (50, ''D''), (10, ''X''), (10, ''A''), (10, ''C'')]"
    by code_simp
  have run: "execute_all inert 5 (enqueue_all ex_items ?q) =
     Some (Inr (),
       [Executed (queued_handler 100 (- 3) ''B''), Executed (queued_handler 50 (- 5) ''D''),
        Executed (queued_handler 10 (- 2) ''A''), Executed (queued_handler 10 (- 4) ''C'')],
       \<lparr>queue_handlers = [], queue_order = - 5\<rparr>)"
    by code_simp
  note inst = pops_priority_then_fifo_bounded [where q = ?q and items = ex_items
      and p = 10 and body = inert]
  note instx = pops_priority_then_fifo_bounded [where q = ?qx and items = ex_items
      and p = 10 and tr = ?tr]
  have a: "sorted_wrt (\<lambda>x y. fst y \<le> fst x) (map item_of (pop_all (enqueue_all ex_items ?q)))"
    using inst [THEN conjunct1] .
  have b: "filter (\<lambda>x. fst x = 10) (map item_of (pop_all (enqueue_all ex_items ?qx))) =
      filter (\<lambda>x. fst x = 10) (map item_of (pop_all ?qx)) @ filter (\<lambda>x. fst x = 10) ex_items"
    using instx [THEN conjunct2, THEN conjunct1, THEN mp, OF conjI, OF h4 h5] .
  have b': "filter (\<lambda>x. fst x = 10) (map item_of (pop_all (enqueue_all ex_items ?qx))) =
      filter (\<lambda>x. fst x = 10) (map item_of (pop_all ?qx)) @ filter (\<lambda>x. fst x = 10) ex_items"
    using instx [THEN conjunct2, THEN conjunct2, THEN conjunct1, THEN mp, OF conjI, OF h6 h7] .
  have c: "map item_of (pop_all (enqueue_all ex_items ?q)) = sort_key (\<lambda>x. - fst x) ex_items"
    using inst [THEN conjunct2, THEN conjunct2, THEN conjunct2, THEN conjunct1, THEN mp,
        OF conjI, OF h1 h2] .
  have d: "execute_all inert (Suc (length (queue_handlers (enqueue_all ex_items ?q))))
        (enqueue_all ex_items ?q) =
      Some (Inr (), map Executed (pop_all (enqueue_all ex_items ?q)),
        (enqueue_all ex_items ?q)\<lparr>queue_handlers := []\<rparr>)"
    using inst [THEN conjunct2, THEN conjunct2, THEN conjunct2, THEN conjunct2, THEN mp, OF h3] .
  show ?thesis by (intro conjI; fact h1 h2 h4 h5 h6 h7 ev evx a b c d run)
qed

subsection \<open>C2: draining\<close>

text \<open>
  C2. When \<^verbatim>\<open>execute_all\<close> returns, the queue is empty and the handlers it executed
  are, counted with multiplicity, the handlers that were pending at the call together
  with the handlers added during the call: each is executed exactly once, also those
  that executed callables added. On an empty queue it returns at once and executes
  nothing. On \<open>N\<close> pending handlers whose callables leave the queue alone it returns
  after exactly the \<open>N\<close> executions of the pending handlers. And it does return
  whenever the callables are ranked, whatever they add and whichever nested calls they
  make: with fuel above the weight of the queue the execution ends, the queue is empty,
  every handler that was pending or was added during the call is executed exactly
  once, and the items added during the call are, counted with multiplicity, the items
  that the callables of the executed handlers add.
\<close>

theorem execute_all_drains:
  "(execute_all body n q = Some (Inr u, tr, q') \<longrightarrow>
      queue_handlers q' = [] \<and>
      mset (executed_of tr) = mset (queue_handlers q) + mset (enqueued_of tr)) \<and>
   (queue_handlers q = [] \<longrightarrow> execute_all body (Suc n) q = Some (Inr (), [], q)) \<and>
   ((\<forall>h\<in>set (queue_handlers q). body h = []) \<longrightarrow>
      execute_all body (Suc (length (queue_handlers q))) q =
        Some (Inr (), map Executed (pop_all q), q\<lparr>queue_handlers := []\<rparr>) \<and>
      mset (pop_all q) = mset (queue_handlers q)) \<and>
   (ranked cost body \<and> weight cost q \<le> m \<longrightarrow>
      (\<exists>tr1 q1. execute_all body (Suc m) q = Some (Inr (), tr1, q1) \<and>
         queue_handlers q1 = [] \<and>
         mset (executed_of tr1) = mset (queue_handlers q) + mset (enqueued_of tr1) \<and>
         mset (map item_of (enqueued_of tr1)) =
           mset (concat (map (\<lambda>h. adds (body h)) (executed_of tr1)))))"
proof (intro conjI impI)
  assume a: "execute_all body n q = Some (Inr u, tr, q')"
  then show e: "queue_handlers q' = []" by (rule execute_all_returns_empty)
  have "replay tr q = Some q'" using a by (rule execution_replay(4))
  then show "mset (executed_of tr) = mset (queue_handlers q) + mset (enqueued_of tr)"
    using replay_mset [of tr q q'] by (simp add: e)
next
  assume "queue_handlers q = []"
  then show "execute_all body (Suc n) q = Some (Inr (), [], q)" by (rule execute_all_empty)
next
  assume "\<forall>h\<in>set (queue_handlers q). body h = []"
  then show "execute_all body (Suc (length (queue_handlers q))) q =
      Some (Inr (), map Executed (pop_all q), q\<lparr>queue_handlers := []\<rparr>)"
    by (rule execute_all_inert)
next
  show "mset (pop_all q) = mset (queue_handlers q)" by (rule mset_pop_all)
next
  assume "ranked cost body \<and> weight cost q \<le> m"
  then obtain tr1 q1 where r: "execute_all body (Suc m) q = Some (Inr (), tr1, q1)"
    and t: "mset (map item_of (enqueued_of tr1)) = adds_of body tr1"
    using ranked_returns [of cost body q m] by blast
  have e: "queue_handlers q1 = []" using r by (rule execute_all_returns_empty)
  have "replay tr1 q = Some q1" using r by (rule execution_replay(4))
  then have "mset (executed_of tr1) = mset (queue_handlers q) + mset (enqueued_of tr1)"
    using replay_mset [of tr1 q q1] by (simp add: e)
  then show "\<exists>tr1 q1. execute_all body (Suc m) q = Some (Inr (), tr1, q1) \<and>
      queue_handlers q1 = [] \<and>
      mset (executed_of tr1) = mset (queue_handlers q) + mset (enqueued_of tr1) \<and>
      mset (map item_of (enqueued_of tr1)) =
        mset (concat (map (\<lambda>h. adds (body h)) (executed_of tr1)))"
    using r e t unfolding adds_of_def by blast
qed

theorem execute_all_drains_witness:
  "execute_all spawn_body 5 (add 10 ''A'' (new_queue :: (64, string) queue)) =
     Some (Inr (),
       [Executed (queued_handler 10 (- 2) ''A''), Enqueued (queued_handler 100 (- 3) ''B''),
        Enqueued (queued_handler 10 (- 4) ''C''), Executed (queued_handler 100 (- 3) ''B''),
        Enqueued (queued_handler 50 (- 5) ''D''), Executed (queued_handler 50 (- 5) ''D''),
        Executed (queued_handler 10 (- 4) ''C'')],
       \<lparr>queue_handlers = [], queue_order = - 5\<rparr>) \<and>
   mset [queued_handler 10 (- 2 :: 64 word) ''A'', queued_handler 100 (- 3) ''B'',
       queued_handler 50 (- 5) ''D'', queued_handler 10 (- 4) ''C''] =
     mset (queue_handlers (add 10 ''A'' (new_queue :: (64, string) queue))) +
     mset [queued_handler 100 (- 3) ''B'', queued_handler 10 (- 4) ''C'',
       queued_handler 50 (- 5) ''D''] \<and>
   ranked spawn_cost (spawn_body :: (64, string) handler \<Rightarrow> string stmt list) \<and>
   weight spawn_cost (add 10 ''A'' (new_queue :: (64, string) queue)) \<le> 4 \<and>
   (\<exists>tr1 q1. execute_all spawn_body (Suc 4) (add 10 ''A'' (new_queue :: (64, string) queue)) =
        Some (Inr (), tr1, q1) \<and>
      queue_handlers q1 = [] \<and>
      mset (executed_of tr1) =
        mset (queue_handlers (add 10 ''A'' (new_queue :: (64, string) queue))) + mset (enqueued_of tr1) \<and>
      mset (map item_of (enqueued_of tr1)) =
        mset (concat (map (\<lambda>h. adds (spawn_body h)) (executed_of tr1)))) \<and>
   queue_handlers (new_queue :: (64, string) queue) = [] \<and>
   execute_all spawn_body (Suc 0) (new_queue :: (64, string) queue) = Some (Inr (), [], new_queue) \<and>
   execute_all inert (Suc (length (queue_handlers (enqueue_all ex_items (new_queue :: (64, string) queue)))))
       (enqueue_all ex_items (new_queue :: (64, string) queue)) =
     Some (Inr (), map Executed (pop_all (enqueue_all ex_items new_queue)),
       (enqueue_all ex_items new_queue)\<lparr>queue_handlers := []\<rparr>)"
proof -
  let ?q = "add 10 ''A'' (new_queue :: (64, string) queue)"
  let ?n = "new_queue :: (64, string) queue"
  let ?tr = "[Executed (queued_handler 10 (- 2 :: 64 word) ''A''),
     Enqueued (queued_handler 100 (- 3) ''B''), Enqueued (queued_handler 10 (- 4) ''C''),
     Executed (queued_handler 100 (- 3) ''B''), Enqueued (queued_handler 50 (- 5) ''D''),
     Executed (queued_handler 50 (- 5) ''D''), Executed (queued_handler 10 (- 4) ''C'')]"
  let ?q' = "\<lparr>queue_handlers = [], queue_order = - 5 :: 64 word\<rparr> :: (64, string) queue"
  have run: "execute_all spawn_body 5 ?q = Some (Inr (), ?tr, ?q')"
    by code_simp
  have empty: "queue_handlers ?n = []"
    by (simp add: new_queue_def)
  have inert: "\<forall>h\<in>set (queue_handlers (enqueue_all ex_items ?n)). inert h = []"
    by (simp add: inert_def)
  have ranked: "ranked spawn_cost (spawn_body :: (64, string) handler \<Rightarrow> string stmt list)"
    by (simp add: ranked_def spawn_body_def spawn_cost_def added_def)
  have weight: "weight spawn_cost ?q \<le> 4"
    by (simp add: weight_def add_handlers new_queue_def spawn_cost_def)
  note inst = execute_all_drains [where body = spawn_body and n = 5 and q = ?q and u = "()"
      and tr = ?tr and q' = ?q' and cost = spawn_cost and m = 4]
  have a: "mset (executed_of ?tr) = mset (queue_handlers ?q) + mset (enqueued_of ?tr)"
    using inst [THEN conjunct1, THEN mp, OF run, THEN conjunct2] .
  have b: "\<exists>tr1 q1. execute_all spawn_body (Suc 4) ?q = Some (Inr (), tr1, q1) \<and>
      queue_handlers q1 = [] \<and>
      mset (executed_of tr1) = mset (queue_handlers ?q) + mset (enqueued_of tr1) \<and>
      mset (map item_of (enqueued_of tr1)) =
        mset (concat (map (\<lambda>h. adds (spawn_body h)) (executed_of tr1)))"
    using inst [THEN conjunct2, THEN conjunct2, THEN conjunct2, THEN mp, OF conjI, OF ranked weight] .
  have c: "execute_all spawn_body (Suc 0) ?n = Some (Inr (), [], ?n)"
    using execute_all_drains [where body = spawn_body and n = 0 and q = ?n,
        THEN conjunct2, THEN conjunct1, THEN mp, OF empty] .
  have d: "execute_all inert (Suc (length (queue_handlers (enqueue_all ex_items ?n))))
        (enqueue_all ex_items ?n) =
      Some (Inr (), map Executed (pop_all (enqueue_all ex_items ?n)),
        (enqueue_all ex_items ?n)\<lparr>queue_handlers := []\<rparr>)"
    using execute_all_drains [where body = inert and q = "enqueue_all ex_items ?n",
        THEN conjunct2, THEN conjunct2, THEN conjunct1, THEN mp, OF inert, THEN conjunct1] .
  have a': "mset [queued_handler 10 (- 2 :: 64 word) ''A'', queued_handler 100 (- 3) ''B'',
       queued_handler 50 (- 5) ''D'', queued_handler 10 (- 4) ''C''] =
     mset (queue_handlers ?q) +
     mset [queued_handler 100 (- 3) ''B'', queued_handler 10 (- 4) ''C'',
       queued_handler 50 (- 5) ''D'']"
    using a by simp
  show ?thesis by (intro conjI; fact run a' ranked weight b empty c d)
qed

subsection \<open>C3: one step\<close>



subsection \<open>C4: the three submission members\<close>

text \<open>
  C4. \<^verbatim>\<open>dispatch\<close>, \<^verbatim>\<open>post\<close> and \<^verbatim>\<open>defer\<close> of an executor have the same effect:
  the queue the executor refers to is replaced by the result of \<^verbatim>\<open>add\<close> with the
  priority of the executor and the callable; nothing else in the store changes. The
  callable is pending afterwards, as the last handler added, and it has not been
  called: the same \<^verbatim>\<open>add\<close> made from inside a callable returns normally and leaves
  one event, the handler added, whatever the body of the submitted callable is.
\<close>

theorem submission_members_add:
  "dispatch e f s = s(executor_context e := add (executor_priority e) f (s (executor_context e))) \<and>
   post e f s = dispatch e f s \<and>
   defer_submit e f s = dispatch e f s \<and>
   queue_handlers (dispatch e f s (executor_context e)) =
     queue_handlers (s (executor_context e)) @
       [queued_handler (executor_priority e) (queue_order (s (executor_context e)) - 1) f] \<and>
   run body n [Call_add (executor_priority e) f] (s (executor_context e)) =
     Some (Inr (),
       [Enqueued (queued_handler (executor_priority e) (queue_order (s (executor_context e)) - 1) f)],
       dispatch e f s (executor_context e))"
  by (simp add: dispatch_def post_def defer_submit_def add_handlers last_add)

subsection \<open>C5: the counter at its end\<close>

text \<open>
  C5, as the specification states it: the counter gives a strictly decreasing value at
  each submission, and its exhaustion is a fatal condition, not a silent wrap-around.

  \<^verbatim>\<open>add\<close> has no check. A queue that has handled \<open>2 ^ 64 - 2\<close> handlers and then
  receives A holds A with the sequence value 0, and its counter is 0. The next
  \<^verbatim>\<open>add\<close> returns like any other: B is pending with the sequence value
  \<open>2 ^ 64 - 1\<close>, which is not below the value 0 given before it.
\<close>

theorem counter_wraps_counterexample:
  "enqueue_all [(10, ''A'')] (churn (2 ^ 64 - 2) 10 ''X'' (new_queue :: (64, string) queue)) =
     \<lparr>queue_handlers = [queued_handler 10 0 ''A''], queue_order = 0\<rparr> \<and>
   add 10 ''B'' \<lparr>queue_handlers = [queued_handler 10 0 ''A''], queue_order = 0 :: 64 word\<rparr> =
     \<lparr>queue_handlers = [queued_handler 10 0 ''A'', queued_handler 10 (- 1) ''B''],
      queue_order = - 1\<rparr> \<and>
   \<not> handler_order (queued_handler 10 (- 1 :: 64 word) ''B'') <
       handler_order (queued_handler 10 (0 :: 64 word) ''A'')"
proof -
  have "churn (2 ^ 64 - 2) 10 ''X'' (new_queue :: (64, string) queue) =
      \<lparr>queue_handlers = [], queue_order = 1\<rparr>"
    by (subst churn_empty) (simp_all add: new_queue_def)
  then show ?thesis
    by (simp add: add_def pq_push_def Let_def)
qed

text \<open>
  C5, amended. The counter of a new queue is the greatest \<^verbatim>\<open>size_t\<close>. Each
  \<^verbatim>\<open>add\<close> decrements it modulo \<open>2 ^ w\<close> and gives the new value to the handler it
  adds. While the counter is not 0 the new value is smaller than the old one, so over
  the first \<open>2 ^ w - 1\<close> submissions of a queue the values given are strictly
  decreasing and pairwise distinct. An \<^verbatim>\<open>add\<close> on the counter 0 is accepted like any
  other and sets the counter to the greatest value: there is no check for exhaustion.
\<close>

theorem counter_decrements_modulo:
  "queue_order (new_queue :: ('w::len, 'f) queue) = - 1 \<and>
   (\<forall>c. c \<le> queue_order (new_queue :: ('w, 'f) queue)) \<and>
   queue_order (add p f q) = queue_order q - 1 \<and>
   queue_handlers (add p f q) = queue_handlers q @ [queued_handler p (queue_order q - 1) f] \<and>
   (queue_order q \<noteq> 0 \<longrightarrow>
      queue_order (add p f q) < queue_order q \<and>
      unat (queue_order (add p f q)) = unat (queue_order q) - 1) \<and>
   (queue_order q = 0 \<longrightarrow> queue_order (add p f q) = - 1) \<and>
   (length items < 2 ^ LENGTH('w) \<longrightarrow>
      sorted_wrt (\<lambda>a b. handler_order b < handler_order a)
        (queue_handlers (enqueue_all items (new_queue :: ('w, 'f) queue))) \<and>
      distinct (map handler_order (queue_handlers (enqueue_all items (new_queue :: ('w, 'f) queue)))))"
proof -
  have dec: "sorted_wrt (\<lambda>a b. handler_order b < handler_order a)
      (queue_handlers (enqueue_all items (new_queue :: ('w, 'f) queue)))"
    if "length items < 2 ^ LENGTH('w)"
  proof -
    have "length items \<le> unat (- 1 :: 'w word)"
      using that by (simp add: unat_minus_1_word)
    then have "sorted_wrt (\<lambda>a b. handler_order b < handler_order a) (stamped (- 1 :: 'w word) items)"
      by (rule stamped_decreasing)
    then show ?thesis by (simp add: enqueue_all_handlers new_queue_def)
  qed
  have "queue_order (add p f q) < queue_order q \<and>
      unat (queue_order (add p f q)) = unat (queue_order q) - 1" if "queue_order q \<noteq> 0"
    using that word_pred_less [of "queue_order q"] by (simp add: add_order unat_minus_one)
  moreover have "queue_order (add p f q) = - 1" if "queue_order q = 0"
    using that by (simp add: add_order)
  moreover have "\<forall>c. c \<le> queue_order (new_queue :: ('w, 'f) queue)"
    by (simp add: new_queue_def)
  moreover have "queue_order (new_queue :: ('w, 'f) queue) = - 1"
    by (simp add: new_queue_def)
  ultimately show ?thesis
    using dec sorted_wrt_strict_distinct [of handler_order
        "queue_handlers (enqueue_all items (new_queue :: ('w, 'f) queue))"]
    by (simp add: add_order add_handlers)
qed

theorem counter_decrements_modulo_witness:
  "queue_order (new_queue :: (64, string) queue) \<noteq> 0 \<and>
   queue_order (add 10 ''A'' (new_queue :: (64, string) queue)) < queue_order (new_queue :: (64, string) queue) \<and>
   queue_order \<lparr>queue_handlers = [queued_handler 10 0 ''A''], queue_order = 0 :: 64 word\<rparr> = 0 \<and>
   queue_order (add 10 ''B''
     \<lparr>queue_handlers = [queued_handler 10 0 ''A''], queue_order = 0 :: 64 word\<rparr>) = - 1 \<and>
   length ex_items < 2 ^ LENGTH(64) \<and>
   distinct (map handler_order (queue_handlers (enqueue_all ex_items (new_queue :: (64, string) queue))))"
proof -
  have 1: "queue_order (new_queue :: (64, string) queue) \<noteq> 0"
    by (simp add: new_queue_def)
  have 2: "queue_order \<lparr>queue_handlers = [queued_handler 10 0 ''A''], queue_order = 0 :: 64 word\<rparr> = 0"
    by simp
  have 3: "length ex_items < 2 ^ LENGTH(64)"
    by (simp add: ex_items_def)
  show ?thesis
    using counter_decrements_modulo [where 'w = 64 and p = 10 and f = "''A''"
        and q = "new_queue :: (64, string) queue" and items = ex_items]
      counter_decrements_modulo [where 'w = 64 and p = 10 and f = "''B''"
        and q = "\<lparr>queue_handlers = [queued_handler 10 0 ''A''], queue_order = 0 :: 64 word\<rparr>"
        and items = ex_items]
      1 2 3
    by blast
qed

subsection \<open>C6: popped before it is called\<close>

text \<open>
  C6. In a step of \<^verbatim>\<open>execute_highest\<close> or \<^verbatim>\<open>execute_all\<close> that pops the handler
  \<open>h\<close>, the callable of \<open>h\<close> runs on the queue from which \<open>h\<close> has been removed; so an
  \<^verbatim>\<open>execute_highest\<close> made by the only pending callable finds the queue empty and
  executes nothing. If the callable leaves by an exception, both members leave by that
  exception, and the queue is the one the callable left: it differs from the queue
  without \<open>h\<close> by what the callable itself added and executed, so \<open>h\<close> is not put back.
\<close>

theorem popped_before_invoked:
  assumes "get_top_handler q = (Some h, q1)"
  shows "mset (queue_handlers q1) = mset (queue_handlers q) - {#h#} \<and>
     (execute_highest body (Suc n) q = Some (rb, tr, q') \<longrightarrow>
        (\<exists>r' tr'. run body n (body h) q1 = Some (r', tr', q') \<and>
           tr = Executed h # tr')) \<and>
     (execute_all body (Suc n) q = Some (r, tr, q') \<longrightarrow>
        (\<exists>r' tr' q2. run body n (body h) q1 = Some (r', tr', q2) \<and>
           take (Suc (length tr')) tr = Executed h # tr')) \<and>
     (run body n (body h) q1 = Some (Inl e, tr, q2) \<longrightarrow>
        execute_highest body (Suc n) q = Some (Inl e, Executed h # tr, q2) \<and>
        execute_all body (Suc n) q = Some (Inl e, Executed h # tr, q2) \<and>
        mset (queue_handlers q2) + mset (executed_of tr) =
          mset (queue_handlers q1) + mset (enqueued_of tr)) \<and>
     (queue_handlers q = [h] \<and> body h = [Call_execute_highest] \<longrightarrow>
        execute_highest body (Suc (Suc n)) q = Some (Inr False, [Executed h], q1))"
proof (intro conjI impI)
  show "mset (queue_handlers q1) = mset (queue_handlers q) - {#h#}"
    using get_top_handler_mset [OF assms] by simp
next
  assume "execute_highest body (Suc n) q = Some (rb, tr, q')"
  then show "\<exists>r' tr'. run body n (body h) q1 = Some (r', tr', q') \<and>
      tr = Executed h # tr'"
    unfolding execute_highest_step [OF assms]
    by (auto split: option.splits sum.splits prod.splits)
next
  assume "execute_all body (Suc n) q = Some (r, tr, q')"
  then show "\<exists>r' tr' q2. run body n (body h) q1 = Some (r', tr', q2) \<and>
      take (Suc (length tr')) tr = Executed h # tr'"
    unfolding execute_all_step [OF assms]
    by (auto split: option.splits sum.splits prod.splits)
next
  assume a: "run body n (body h) q1 = Some (Inl e, tr, q2)"
  show "execute_highest body (Suc n) q = Some (Inl e, Executed h # tr, q2)"
    unfolding execute_highest_step [OF assms] by (simp add: a)
  show "execute_all body (Suc n) q = Some (Inl e, Executed h # tr, q2)"
    unfolding execute_all_step [OF assms] by (simp add: a)
  have "replay tr q1 = Some q2" using a by (rule execution_replay(1))
  then show "mset (queue_handlers q2) + mset (executed_of tr) =
      mset (queue_handlers q1) + mset (enqueued_of tr)"
    by (rule replay_mset)
next
  assume a: "queue_handlers q = [h] \<and> body h = [Call_execute_highest]"
  have "queue_handlers q1 = []" using get_top_handler_Some(3) [OF assms] a by simp
  then have "execute_highest body (Suc n) q1 = Some (Inr False, [], q1)"
    by (rule execute_highest_empty)
  then show "execute_highest body (Suc (Suc n)) q = Some (Inr False, [Executed h], q1)"
    unfolding execute_highest_step [OF assms] using a \<open>queue_handlers q1 = []\<close> by simp
qed

theorem popped_before_invoked_witness:
  "get_top_handler (add 10 ''T'' (new_queue :: (64, string) queue)) =
     (Some (queued_handler 10 (- 2) ''T''), \<lparr>queue_handlers = [], queue_order = - 2\<rparr>) \<and>
   run example_body 0 (example_body (queued_handler 10 (- 2 :: 64 word) ''T''))
       \<lparr>queue_handlers = [], queue_order = - 2 :: 64 word\<rparr> =
     Some (Inl Callback_exception, [], \<lparr>queue_handlers = [], queue_order = - 2\<rparr>) \<and>
   execute_highest example_body (Suc 0) (add 10 ''T'' (new_queue :: (64, string) queue)) =
     Some (Inl Callback_exception, [Executed (queued_handler 10 (- 2) ''T'')],
       \<lparr>queue_handlers = [], queue_order = - 2\<rparr>) \<and>
   execute_all example_body (Suc 0) (add 10 ''T'' (new_queue :: (64, string) queue)) =
     Some (Inl Callback_exception, [Executed (queued_handler 10 (- 2) ''T'')],
       \<lparr>queue_handlers = [], queue_order = - 2\<rparr>) \<and>
   get_top_handler (add 10 ''R'' (new_queue :: (64, string) queue)) =
     (Some (queued_handler 10 (- 2) ''R''), \<lparr>queue_handlers = [], queue_order = - 2\<rparr>) \<and>
   execute_highest example_body (Suc (Suc 0)) (add 10 ''R'' (new_queue :: (64, string) queue)) =
     Some (Inr False, [Executed (queued_handler 10 (- 2) ''R'')],
       \<lparr>queue_handlers = [], queue_order = - 2\<rparr>)"
proof -
  let ?q1 = "\<lparr>queue_handlers = [], queue_order = - 2 :: 64 word\<rparr> :: (64, string) queue"
  let ?T = "queued_handler 10 (- 2 :: 64 word) ''T''"
  let ?R = "queued_handler 10 (- 2 :: 64 word) ''R''"
  have topT: "get_top_handler (add 10 ''T'' (new_queue :: (64, string) queue)) = (Some ?T, ?q1)"
    by (simp add: add_def new_queue_def pq_push_def get_top_handler_def pq_empty_def pq_pop_def)
  have topR: "get_top_handler (add 10 ''R'' (new_queue :: (64, string) queue)) = (Some ?R, ?q1)"
    by (simp add: add_def new_queue_def pq_push_def get_top_handler_def pq_empty_def pq_pop_def)
  have throws: "run example_body 0 (example_body ?T) ?q1 =
      Some (Inl Callback_exception, [], ?q1)"
    by (simp add: example_body_def)
  have only: "queue_handlers (add 10 ''R'' (new_queue :: (64, string) queue)) = [?R] \<and>
      example_body ?R = [Call_execute_highest]"
    by (simp add: add_handlers new_queue_def example_body_def)
  have T: "execute_highest example_body (Suc 0) (add 10 ''T'' (new_queue :: (64, string) queue)) =
        Some (Inl Callback_exception, [Executed ?T], ?q1) \<and>
      execute_all example_body (Suc 0) (add 10 ''T'' (new_queue :: (64, string) queue)) =
        Some (Inl Callback_exception, [Executed ?T], ?q1)"
    using popped_before_invoked [OF topT, where body = example_body and n = 0
        and e = Callback_exception and tr = "[]" and ?q2.0 = ?q1] throws
    by blast
  have R: "execute_highest example_body (Suc (Suc 0)) (add 10 ''R'' (new_queue :: (64, string) queue)) =
      Some (Inr False, [Executed ?R], ?q1)"
    using popped_before_invoked [OF topR, where body = example_body and n = 0] only
    by blast
  show ?thesis using topT topR throws T R by simp
qed

subsection \<open>C7: equality of executors\<close>

text \<open>
  C7. Two executors are equal exactly when they refer to the same queue object and
  have the same priority; \<^verbatim>\<open>operator!=\<close> is the negation of \<^verbatim>\<open>operator==\<close>. The
  comparison is on the addresses: executors of two distinct queue objects are unequal
  whatever the two queues hold.
\<close>

theorem executor_equality:
  "(executor_eq e1 e2 \<longleftrightarrow>
      executor_context e1 = executor_context e2 \<and> executor_priority e1 = executor_priority e2) \<and>
   (executor_neq e1 e2 \<longleftrightarrow> \<not> executor_eq e1 e2) \<and>
   (executor_eq (make_executor a p) (make_executor b p') \<longleftrightarrow> a = b \<and> p = p') \<and>
   (a \<noteq> b \<and> s a = s b \<longrightarrow> executor_neq (make_executor a p) (make_executor b p))"
  by (simp add: executor_eq_def executor_neq_def make_executor_def)

theorem executor_equality_witness:
  "(0 :: nat) \<noteq> 1 \<and>
   (\<lambda>a :: nat. new_queue :: (64, string) queue) 0 = (\<lambda>a :: nat. new_queue :: (64, string) queue) 1 \<and>
   executor_neq (make_executor (0 :: nat) 10) (make_executor 1 10) \<and>
   executor_eq (make_executor (0 :: nat) 10) (make_executor 0 10) \<and>
   executor_neq (make_executor (0 :: nat) 10) (make_executor 0 50)"
proof -
  have ne: "(0 :: nat) \<noteq> 1" by simp
  have "executor_neq (make_executor (0 :: nat) 10) (make_executor 1 10)"
    using executor_equality [where a = "0 :: nat" and b = 1 and p = 10
        and s = "\<lambda>a :: nat. new_queue :: (64, string) queue"] ne
    by blast
  moreover have "executor_eq (make_executor (0 :: nat) 10) (make_executor 0 10)"
    by (simp add: executor_eq_def make_executor_def)
  moreover have "executor_neq (make_executor (0 :: nat) 10) (make_executor 0 50)"
    by (simp add: executor_eq_def executor_neq_def make_executor_def)
  ultimately show ?thesis by simp
qed

subsection \<open>C8: the bookkeeping members\<close>

text \<open>
  C8. \<^verbatim>\<open>on_work_started\<close> and \<^verbatim>\<open>on_work_finished\<close> change nothing: the executor
  and every queue of the store, with its pending handlers and its counter, are as
  before.
\<close>

theorem work_members_change_nothing:
  "on_work_started e s = (e, s) \<and> on_work_finished e s = (e, s) \<and>
   queue_handlers (snd (on_work_started e s) a) = queue_handlers (s a) \<and>
   queue_order (snd (on_work_started e s) a) = queue_order (s a) \<and>
   queue_handlers (snd (on_work_finished e s) a) = queue_handlers (s a) \<and>
   queue_order (snd (on_work_finished e s) a) = queue_order (s a) \<and>
   executor_context (fst (on_work_started e s)) = executor_context e \<and>
   executor_priority (fst (on_work_started e s)) = executor_priority e \<and>
   executor_context (fst (on_work_finished e s)) = executor_context e \<and>
   executor_priority (fst (on_work_finished e s)) = executor_priority e"
  by (simp add: on_work_started_def on_work_finished_def)

subsection \<open>C9: the value given to the k-th handler\<close>

text \<open>
  C9. On a new queue every enqueue call is accepted, and the handler of call number
  \<open>i + 1\<close> (the handler at index \<open>i\<close>) gets the greatest \<^verbatim>\<open>size_t\<close> minus
  \<open>i + 1\<close>, computed modulo \<open>2 ^ w\<close>; the first handler gets the greatest value minus
  one, not the greatest value; and the handler of call number \<open>i + 1 + 2 ^ w\<close> gets
  the value of the handler of call number \<open>i + 1\<close> again. Pops between the calls
  change nothing: in every sequence of adds and pops on a new queue the handler of
  the add number \<open>i + 1\<close> gets that same value.
\<close>

theorem kth_enqueue_order:
  fixes items :: "(int \<times> 'f) list"
  defines "hs \<equiv> queue_handlers (enqueue_all items (new_queue :: ('w::len, 'f) queue))"
  shows "length hs = length items \<and>
     (i < length items \<longrightarrow>
        handler_order (hs ! i) = - 1 - of_nat (Suc i) \<and>
        uint (handler_order (hs ! i)) = (2 ^ LENGTH('w) - 1 - int (Suc i)) mod 2 ^ LENGTH('w)) \<and>
     (0 < length items \<longrightarrow> handler_order (hs ! 0) = - 2 \<and> handler_order (hs ! 0) \<noteq> - 1) \<and>
     (i + 2 ^ LENGTH('w) < length items \<longrightarrow>
        handler_order (hs ! (i + 2 ^ LENGTH('w))) = handler_order (hs ! i)) \<and>
     (replay es (new_queue :: ('w, 'f) queue) = Some q1 \<and> i < length (enqueued_of es) \<longrightarrow>
        handler_order (enqueued_of es ! i) = - 1 - of_nat (Suc i))"
proof -
  have hs: "hs = stamped (- 1) items"
    by (simp add: hs_def enqueue_all_handlers new_queue_def)
  have nth: "handler_order (hs ! j) = - 1 - of_nat (Suc j)" if "j < length items" for j
    unfolding hs using that by (rule stamped_nth)
  have 1: "length hs = length items" by (simp add: hs length_stamped)
  have 2: "uint (handler_order (hs ! i)) = (2 ^ LENGTH('w) - 1 - int (Suc i)) mod 2 ^ LENGTH('w)"
    if "i < length items"
    unfolding nth [OF that] by (rule uint_max_minus)
  have 3: "handler_order (hs ! 0) = - 2 \<and> handler_order (hs ! 0) \<noteq> - 1" if "0 < length items"
    using nth [OF that] by simp
  have 4: "handler_order (hs ! (i + 2 ^ LENGTH('w))) = handler_order (hs ! i)"
    if "i + 2 ^ LENGTH('w) < length items"
  proof -
    have "i < length items" using that by simp
    then show ?thesis using nth [OF that] nth [of i] by simp
  qed
  have 5: "handler_order (enqueued_of es ! i) = - 1 - of_nat (Suc i)"
    if "replay es (new_queue :: ('w, 'f) queue) = Some q1 \<and> i < length (enqueued_of es)"
    using replay_enqueued_nth [of es "new_queue :: ('w, 'f) queue" q1 i] that
    by (simp add: new_queue_def)
  show ?thesis using 1 2 3 4 5 nth by blast
qed

theorem kth_enqueue_order_witness:
  "0 < length [(10 :: int, ''A'')] \<and>
   handler_order (queue_handlers (enqueue_all [(10, ''A'')] (new_queue :: (64, string) queue)) ! 0) = - 2 \<and>
   uint (handler_order
     (queue_handlers (enqueue_all [(10, ''A'')] (new_queue :: (64, string) queue)) ! 0)) =
     18446744073709551614 \<and>
   0 + 2 ^ LENGTH(64) < length (replicate (2 ^ LENGTH(64) + 1) (10 :: int, ''A'')) \<and>
   handler_order (queue_handlers (enqueue_all (replicate (2 ^ LENGTH(64) + 1) (10, ''A''))
       (new_queue :: (64, string) queue)) ! (0 + 2 ^ LENGTH(64))) =
     handler_order (queue_handlers (enqueue_all (replicate (2 ^ LENGTH(64) + 1) (10, ''A''))
       (new_queue :: (64, string) queue)) ! 0) \<and>
   replay [Enqueued (queued_handler 10 (- 2) ''A''), Executed (queued_handler 10 (- 2) ''A''),
       Enqueued (queued_handler 50 (- 3) ''D'')] (new_queue :: (64, string) queue) =
     Some \<lparr>queue_handlers = [queued_handler 50 (- 3) ''D''], queue_order = - 3\<rparr> \<and>
   handler_order (enqueued_of [Enqueued (queued_handler 10 (- 2 :: 64 word) ''A''),
       Executed (queued_handler 10 (- 2) ''A''), Enqueued (queued_handler 50 (- 3) ''D'')] ! 1) =
     - 1 - of_nat (Suc 1)"
proof -
  let ?es = "[Enqueued (queued_handler 10 (- 2 :: 64 word) ''A''),
    Executed (queued_handler 10 (- 2) ''A''), Enqueued (queued_handler 50 (- 3) ''D'')]"
  let ?q1 = "\<lparr>queue_handlers = [queued_handler 50 (- 3 :: 64 word) ''D''], queue_order = - 3 :: 64 word\<rparr>"
  have rp: "replay ?es (new_queue :: (64, string) queue) = Some ?q1" by code_simp
  have ri: "1 < length (enqueued_of ?es)" by simp
  have c: "handler_order (enqueued_of ?es ! 1) = - 1 - of_nat (Suc 1)"
    using kth_enqueue_order [where 'w = 64 and es = ?es and ?q1.0 = ?q1 and i = 1
        and items = "[] :: (int \<times> string) list"] rp ri
    by blast
  have 1: "0 < length [(10 :: int, ''A'')]" by simp
  have 2: "0 + 2 ^ LENGTH(64) < length (replicate (2 ^ LENGTH(64) + 1) (10 :: int, ''A''))"
    by (simp only: length_replicate)
  have 3: "(2 ^ LENGTH(64) - 1 - int (Suc 0)) mod 2 ^ LENGTH(64) = 18446744073709551614"
    by simp
  have a: "handler_order (queue_handlers
        (enqueue_all [(10, ''A'')] (new_queue :: (64, string) queue)) ! 0) = - 2 \<and>
      uint (handler_order (queue_handlers
        (enqueue_all [(10, ''A'')] (new_queue :: (64, string) queue)) ! 0)) =
      (2 ^ LENGTH(64) - 1 - int (Suc 0)) mod 2 ^ LENGTH(64)"
    using kth_enqueue_order [where 'w = 64 and items = "[(10 :: int, ''A'')]" and i = 0] 1
    by blast
  have b: "handler_order (queue_handlers (enqueue_all (replicate (2 ^ LENGTH(64) + 1) (10, ''A''))
        (new_queue :: (64, string) queue)) ! (0 + 2 ^ LENGTH(64))) =
      handler_order (queue_handlers (enqueue_all (replicate (2 ^ LENGTH(64) + 1) (10, ''A''))
        (new_queue :: (64, string) queue)) ! 0)"
    using kth_enqueue_order [where 'w = 64
        and items = "replicate (2 ^ LENGTH(64) + 1) (10 :: int, ''A'')" and i = 0] 2
    by blast
  show ?thesis using 1 2 a b rp c unfolding 3 by blast
qed

subsection \<open>C10: the invariant of the pending handlers\<close>

text \<open>
  C10, as stated: while fewer than \<open>2 ^ w\<close> handlers have been enqueued, all pending
  handlers have pairwise distinct sequence values, each strictly greater than the
  current value of the counter.

  \<^verbatim>\<open>add\<close> decrements the counter first and gives the new value to the handler: after
  the first \<^verbatim>\<open>add\<close> on a new queue the counter and the sequence value of the one
  pending handler are both the greatest \<^verbatim>\<open>size_t\<close> minus one.
\<close>

theorem counter_equals_newest_counterexample:
  "queue_handlers (add 10 ''A'' (new_queue :: (64, string) queue)) =
     [queued_handler 10 (- 2) ''A''] \<and>
   queue_order (add 10 ''A'' (new_queue :: (64, string) queue)) = - 2 \<and>
   \<not> queue_order (add 10 ''A'' (new_queue :: (64, string) queue)) <
       handler_order (queued_handler 10 (- 2 :: 64 word) ''A'')"
  by (simp add: add_def new_queue_def pq_push_def Let_def)

text \<open>
  C10, amended. The pending handlers have pairwise distinct sequence values, each
  greater than or equal to the counter (the handler added last has the value of the
  counter, so the next value given is below all of them). This holds of a new queue
  and is kept by \<^verbatim>\<open>add\<close> while the counter is not 0, by \<^verbatim>\<open>get_top_handler\<close>, and by
  \<^verbatim>\<open>execute_highest\<close> and \<^verbatim>\<open>execute_all\<close> when the handlers added during the call
  are no more than the value of the counter at the call; from a new queue that is as
  long as fewer than \<open>2 ^ w\<close> handlers have been enqueued in all. Under it, any two
  distinct pending handlers are ordered one way or the other by \<^verbatim>\<open>operator<\<close>, and the
  handler that \<^verbatim>\<open>get_top_handler\<close> pops is strictly above every other pending
  handler: the pop has one possible result.
\<close>

theorem queue_inv_preserved:
  "queue_inv (new_queue :: ('w::len, 'f) queue) \<and>
   (queue_inv q \<and> queue_order q \<noteq> 0 \<longrightarrow> queue_inv (add p f q)) \<and>
   (queue_inv q \<longrightarrow> queue_inv (snd (get_top_handler q))) \<and>
   (queue_inv q \<and> execute_highest body n q = Some (rb, tr, q') \<and>
      length (enqueued_of tr) \<le> unat (queue_order q) \<longrightarrow> queue_inv q') \<and>
   (queue_inv q \<and> execute_all body n q = Some (r, tr, q') \<and>
      length (enqueued_of tr) \<le> unat (queue_order q) \<longrightarrow> queue_inv q') \<and>
   (queue_inv q \<longrightarrow>
      (\<forall>a\<in>set (queue_handlers q). \<forall>b\<in>set (queue_handlers q).
         a \<noteq> b \<longrightarrow> handler_less a b \<or> handler_less b a) \<and>
      (\<forall>h q1. get_top_handler q = (Some h, q1) \<longrightarrow>
         (\<forall>y\<in>set (queue_handlers q). y \<noteq> h \<longrightarrow> handler_less y h))) \<and>
   (replay es (new_queue :: ('w, 'f) queue) = Some q \<and>
      length (enqueued_of es) < 2 ^ LENGTH('w) \<longrightarrow> queue_inv q)"
proof (intro conjI impI ballI allI)
  show "queue_inv (new_queue :: ('w, 'f) queue)" by (rule queue_inv_new)
next
  assume "queue_inv q \<and> queue_order q \<noteq> 0"
  then show "queue_inv (add p f q)" by (simp add: queue_inv_add)
next
  assume "queue_inv q"
  then show "queue_inv (snd (get_top_handler q))"
    by (rule queue_inv_get_top_handler) (rule surjective_pairing)
next
  assume a: "queue_inv q \<and> execute_highest body n q = Some (rb, tr, q') \<and>
      length (enqueued_of tr) \<le> unat (queue_order q)"
  then have "replay tr q = Some q'" using execution_replay(3) by blast
  then show "queue_inv q'" using a by (blast intro: replay_queue_inv)
next
  assume a: "queue_inv q \<and> execute_all body n q = Some (r, tr, q') \<and>
      length (enqueued_of tr) \<le> unat (queue_order q)"
  then have "replay tr q = Some q'" using execution_replay(4) by blast
  then show "queue_inv q'" using a by (blast intro: replay_queue_inv)
next
  fix a b
  assume "queue_inv q" "a \<in> set (queue_handlers q)" "b \<in> set (queue_handlers q)" "a \<noteq> b"
  then show "handler_less a b \<or> handler_less b a" by (rule queue_inv_total)
next
  fix h q1 y
  assume "queue_inv q" "get_top_handler q = (Some h, q1)" "y \<in> set (queue_handlers q)" "y \<noteq> h"
  then show "handler_less y h" by (rule queue_inv_top_unique)
next
  assume a: "replay es (new_queue :: ('w, 'f) queue) = Some q \<and>
      length (enqueued_of es) < 2 ^ LENGTH('w)"
  then have "length (enqueued_of es) \<le> unat (queue_order (new_queue :: ('w, 'f) queue))"
    by (auto simp: new_queue_def unat_minus_1_word)
  then show "queue_inv q"
    using a queue_inv_new replay_queue_inv by blast
qed

theorem queue_inv_preserved_witness:
  "queue_inv (new_queue :: (64, string) queue) \<and>
   queue_order (new_queue :: (64, string) queue) \<noteq> 0 \<and>
   queue_inv (add 10 ''A'' (new_queue :: (64, string) queue)) \<and>
   queue_inv (snd (get_top_handler (add 10 ''A'' (new_queue :: (64, string) queue)))) \<and>
   execute_highest example_body 2 (add 10 ''A'' (new_queue :: (64, string) queue)) =
     Some (Inr True,
       [Executed (queued_handler 10 (- 2) ''A''), Enqueued (queued_handler 100 (- 3) ''B'')],
       \<lparr>queue_handlers = [queued_handler 100 (- 3) ''B''], queue_order = - 3\<rparr>) \<and>
   queue_inv \<lparr>queue_handlers = [queued_handler 100 (- 3) ''B''], queue_order = - 3 :: 64 word\<rparr> \<and>
   execute_all example_body 3 (add 10 ''A'' (new_queue :: (64, string) queue)) =
     Some (Inr (),
       [Executed (queued_handler 10 (- 2) ''A''), Enqueued (queued_handler 100 (- 3) ''B''),
        Executed (queued_handler 100 (- 3) ''B'')],
       \<lparr>queue_handlers = [], queue_order = - 3\<rparr>) \<and>
   queue_inv (\<lparr>queue_handlers = [], queue_order = - 3 :: 64 word\<rparr> :: (64, string) queue) \<and>
   get_top_handler (add 100 ''B'' (add 10 ''A'' (new_queue :: (64, string) queue))) =
     (Some (queued_handler 100 (- 3) ''B''),
      \<lparr>queue_handlers = [queued_handler 10 (- 2) ''A''], queue_order = - 3\<rparr>) \<and>
   handler_less (queued_handler 10 (- 2 :: 64 word) ''A'') (queued_handler 100 (- 3) ''B'') \<and>
   replay [Enqueued (queued_handler 10 (- 2) ''A''), Executed (queued_handler 10 (- 2) ''A'')]
     (new_queue :: (64, string) queue) = Some \<lparr>queue_handlers = [], queue_order = - 2\<rparr> \<and>
   queue_inv (\<lparr>queue_handlers = [], queue_order = - 2 :: 64 word\<rparr> :: (64, string) queue)"
proof -
  let ?new = "new_queue :: (64, string) queue"
  let ?q = "add 10 ''A'' ?new"
  let ?A = "queued_handler 10 (- 2 :: 64 word) ''A''"
  let ?B = "queued_handler 100 (- 3 :: 64 word) ''B''"
  let ?tr1 = "[Executed ?A, Enqueued ?B]"
  let ?q1 = "\<lparr>queue_handlers = [?B], queue_order = - 3 :: 64 word\<rparr>"
  let ?tr2 = "[Executed ?A, Enqueued ?B, Executed ?B]"
  let ?q2 = "\<lparr>queue_handlers = [], queue_order = - 3 :: 64 word\<rparr> :: (64, string) queue"
  let ?qq = "add 100 ''B'' ?q"
  note c2 = conjunct2
  have c0: "queue_order ?new \<noteq> 0" by (simp add: new_queue_def)
  have new: "queue_inv ?new"
    by (rule queue_inv_preserved [THEN conjunct1])
  have q: "queue_inv ?q"
    using queue_inv_preserved [where q = ?new and p = 10 and f = "''A''",
        THEN c2, THEN conjunct1] new c0 by simp
  have pop: "queue_inv (snd (get_top_handler ?q))"
    using queue_inv_preserved [where q = ?q, THEN c2, THEN c2, THEN conjunct1] q by simp
  have r1: "execute_highest example_body 2 ?q = Some (Inr True, ?tr1, ?q1)" by code_simp
  have r2: "execute_all example_body 3 ?q = Some (Inr (), ?tr2, ?q2)" by code_simp
  have n1: "length (enqueued_of ?tr1) \<le> unat (queue_order ?q)"
    by (simp add: add_order new_queue_def)
  have n2: "length (enqueued_of ?tr2) \<le> unat (queue_order ?q)"
    by (simp add: add_order new_queue_def)
  have q1: "queue_inv ?q1"
    using queue_inv_preserved [where q = ?q and body = example_body and n = 2 and rb = "Inr True"
        and tr = ?tr1 and q' = ?q1, THEN c2, THEN c2, THEN c2, THEN conjunct1] q r1 n1
    by blast
  have q2: "queue_inv ?q2"
    using queue_inv_preserved [where q = ?q and body = example_body and n = 3 and r = "Inr ()"
        and tr = ?tr2 and q' = ?q2, THEN c2, THEN c2, THEN c2, THEN c2, THEN conjunct1] q r2 n2
    by blast
  have c1: "queue_order ?q \<noteq> 0" by (simp add: add_order new_queue_def)
  have qq: "queue_inv ?qq"
    using queue_inv_preserved [where q = ?q and p = 100 and f = "''B''",
        THEN c2, THEN conjunct1] q c1 by simp
  have top: "get_top_handler ?qq = (Some ?B, \<lparr>queue_handlers = [?A], queue_order = - 3\<rparr>)"
    by code_simp
  have mem: "?A \<in> set (queue_handlers ?qq)" "?A \<noteq> ?B"
    by (simp_all add: add_handlers new_queue_def)
  have less: "handler_less ?A ?B"
    by (rule queue_inv_preserved [where q = ?qq, THEN c2, THEN c2, THEN c2, THEN c2, THEN c2,
          THEN conjunct1, THEN mp, OF qq, THEN conjunct2, rule_format, OF top mem])
  have rp: "replay [Enqueued ?A, Executed ?A] ?new = Some \<lparr>queue_handlers = [], queue_order = - 2\<rparr>"
    by code_simp
  have rn: "length (enqueued_of [Enqueued ?A, Executed ?A]) < 2 ^ LENGTH(64)"
    by simp
  have q3: "queue_inv (\<lparr>queue_handlers = [], queue_order = - 2 :: 64 word\<rparr> :: (64, string) queue)"
    using queue_inv_preserved [where es = "[Enqueued ?A, Executed ?A]"
        and q = "\<lparr>queue_handlers = [], queue_order = - 2 :: 64 word\<rparr> :: (64, string) queue",
        THEN c2, THEN c2, THEN c2, THEN c2, THEN c2, THEN c2] rp rn
    by blast
  show ?thesis by (intro conjI; fact new c0 q pop r1 q1 r2 q2 top less rp q3)
qed

end
